theory Spec2Isabelle
  imports Main
begin

section \<open>The RedisDB reply parser (parser.c, parser.h)\<close>

text \<open>
  A shallow embedding of \<^verbatim>\<open>src/parser.c\<close>. The parser is a C structure mutated in place;
  here every function takes the structure and returns the updated one. A Perl exception
  (\<^verbatim>\<open>croak\<close>) and an undefined C operation are error values. Callback invocations
  (\<^verbatim>\<open>call_sv\<close>) are recorded as a list of calls, in the order they are made.
\<close>

subsection \<open>Bytes and Perl values\<close>

type_synonym bytes = string

abbreviation CR :: char where "CR \<equiv> CHR 0x0D"
abbreviation LF :: char where "LF \<equiv> CHR 0x0A"
abbreviation NUL :: char where "NUL \<equiv> CHR 0x00"
abbreviation CRLF :: bytes where "CRLF \<equiv> [CR, LF]"

text \<open>
  The Perl scalars the parser builds: \<open>Undef\<close> is \<^verbatim>\<open>newSVpvn(NULL, 0)\<close>, \<open>PV s u\<close> a string
  scalar (\<^verbatim>\<open>newSVpvn\<close>) with its UTF-8 flag \<open>u\<close>, \<open>IV n\<close> is \<^verbatim>\<open>newSViv\<close>, \<open>AVref xs\<close> a
  reference to an array (\<^verbatim>\<open>newRV_noinc\<close> of an \<^verbatim>\<open>AV\<close>), and \<open>RdbError m\<close> the object
  that \<^verbatim>\<open>RedisDB::Error::new\<close> returns for the message \<open>m\<close> (the constructor is Perl code
  outside the parser; the object is identified by the message it was built from).
\<close>

datatype sv = Undef | PV bytes bool | IV int | RdbError sv | AVref "sv list"

text \<open>A callback is an opaque code reference; the client handle an opaque object, or undef.\<close>

type_synonym cb = nat
type_synonym handle = "nat option"
type_synonym call = "cb \<times> handle \<times> sv"

datatype pstate =
    RDBP_CLEAN | RDBP_READ_LINE | RDBP_READ_ERROR | RDBP_READ_NUMBER
  | RDBP_READ_BULK_LEN | RDBP_READ_BULK | RDBP_READ_MBLK_LEN | RDBP_WAIT_BUCKS

text \<open>
  \<^verbatim>\<open>struct rdbp_mblk_store\<close> is a linked list of saved frames; a frame is the pair of its
  \<^verbatim>\<open>mblk_reply\<close> (possibly NULL) and \<^verbatim>\<open>mblk_len\<close>, the list is the chain of \<^verbatim>\<open>next\<close>.
  The fields \<^verbatim>\<open>mblk_len\<close> and \<^verbatim>\<open>bulk_len\<close> are unsigned long; they only ever hold a
  non-negative \<^verbatim>\<open>long\<close> and are only decremented when greater than 1, so that they are
  natural numbers here. \<^verbatim>\<open>mblk_level\<close> is a C int, here an integer (the parser would need
  a nesting of \<open>2^31\<close> arrays to overflow it).
\<close>

type_synonym rdbp_mblk_store = "sv list option \<times> nat"

record rdb_parser =
  utf8 :: int
  redisdb :: handle
  callbacks :: "cb list"
  default_cb :: "cb option"
  buffer :: bytes
  state :: pstate
  mblk_level :: int
  mblk_reply :: "sv list option"
  mblk_store :: "rdbp_mblk_store list"
  mblk_len :: nat
  bulk_len :: nat

text \<open>
  The errors: \<open>Croak m\<close> is Perl's \<^verbatim>\<open>croak(m)\<close>; \<open>Fault m\<close> an operation that C leaves
  undefined (a read past the end of the buffer, a NULL array); \<open>Hang\<close> a loop that never
  exits.
\<close>

datatype error = Croak string | Fault string | Hang

subsection \<open>rdb\_parser\_\_init\<close>

text \<open>
  \<^verbatim>\<open>Newx\<close> does not clear the structure and \<^verbatim>\<open>rdb_parser__init\<close> sets neither
  \<^verbatim>\<open>mblk_level\<close> nor \<^verbatim>\<open>mblk_len\<close> nor \<^verbatim>\<open>bulk_len\<close>: what they hold at first is whatever
  the memory held, given here as the arguments \<open>lvl\<close>, \<open>mlen\<close> and \<open>blen\<close>.
\<close>

definition rdb_parser__init :: "handle \<Rightarrow> int \<Rightarrow> int \<Rightarrow> nat \<Rightarrow> nat \<Rightarrow> rdb_parser" where
  "rdb_parser__init client u lvl mlen blen =
     \<lparr>utf8 = u, redisdb = client, callbacks = [], default_cb = None, buffer = [],
      state = RDBP_CLEAN, mblk_level = lvl, mblk_reply = None, mblk_store = [],
      mblk_len = mlen, bulk_len = blen\<rparr>"

subsection \<open>rdb\_parser\_\_propagate\_reply\<close>

text \<open>
  The loop of \<^verbatim>\<open>rdb_parser__propagate_reply\<close>: one callback is taken and called per
  iteration, first from the queue, then the default callback (which is cleared), until
  neither is left.
\<close>

function rdb_parser__propagate_reply :: "rdb_parser \<Rightarrow> sv \<Rightarrow> rdb_parser \<times> call list" where
  "rdb_parser__propagate_reply p reply =
     (case callbacks p of
        c # rest \<Rightarrow>
          (let (p', cs) = rdb_parser__propagate_reply (p\<lparr>callbacks := rest\<rparr>) reply
           in (p', (c, redisdb p, reply) # cs))
      | [] \<Rightarrow>
          (case default_cb p of
             Some c \<Rightarrow>
               (let (p', cs) = rdb_parser__propagate_reply (p\<lparr>default_cb := None\<rparr>) reply
                in (p', (c, redisdb p, reply) # cs))
           | None \<Rightarrow> (p, [])))"
  by pat_completeness auto
termination
  by (relation "measure (\<lambda>(p, r). length (callbacks p) + (case default_cb p of None \<Rightarrow> 0 | Some c \<Rightarrow> 1))")
     auto

declare rdb_parser__propagate_reply.simps [simp del]

subsection \<open>The line scanner\<close>

text \<open>
  \<^verbatim>\<open>_line_length(start, length)\<close>: the loop runs while \<^verbatim>\<open>i < length - 1\<close>, computed in
  \<^verbatim>\<open>size_t\<close>, so that for \<^verbatim>\<open>length == 0\<close> the bound wraps to \<open>2^64 - 1\<close>. Reading
  \<^verbatim>\<open>*pos\<close> or \<^verbatim>\<open>pos[1]\<close> at an index that is not below \<open>length start\<close> is a \<open>Fault\<close>;
  \<^verbatim>\<open>pos[1]\<close> is read only when \<^verbatim>\<open>*pos\<close> is a carriage return, as \<^verbatim>\<open>&&\<close> does. The
  counter \<^verbatim>\<open>i\<close> is a C int and a natural number here, which is the same for every
  buffer shorter than \<open>2^31\<close> bytes.
\<close>

definition scan_bound :: "nat \<Rightarrow> nat" where
  "scan_bound len = (if len = 0 then 2 ^ 64 - 1 else len - 1)"

function line_scan :: "bytes \<Rightarrow> nat \<Rightarrow> nat \<Rightarrow> error + int" where
  "line_scan start bound i =
     (if i < bound then
        (if i < length start then
           (if start ! i = CR then
              (if i + 1 < length start then
                 (if start ! (i + 1) = LF then Inr (int i)
                  else line_scan start bound (i + 1))
               else Inl (Fault ''read past the end of the buffer''))
            else line_scan start bound (i + 1))
         else Inl (Fault ''read past the end of the buffer''))
      else Inr (- 1))"
  by pat_completeness auto
termination
  by (relation "measure (\<lambda>(s, b, i). b - i)") auto

declare line_scan.simps [simp del]

definition line_length :: "bytes \<Rightarrow> nat \<Rightarrow> error + int" where
  "line_length start len = line_scan start (scan_bound len) 0"

text \<open>
  \<^verbatim>\<open>_read_line\<close>: the line as a new string scalar and the buffer chopped after the CRLF,
  or nothing (\<^verbatim>\<open>NULL\<close>) and the buffer as it was.
\<close>

definition read_line :: "bytes \<Rightarrow> error + (sv \<times> bytes) option" where
  "read_line buf =
     (case line_length buf (length buf) of
        Inl e \<Rightarrow> Inl e
      | Inr len \<Rightarrow>
          if len \<ge> 0 then Inr (Some (PV (take (nat len) buf) False, drop (nat len + 2) buf))
          else Inr None)"

text \<open>
  Modelled from the spec: \<^verbatim>\<open>atol\<close> is the C library's and not part of the repository.
  The spec's "standard integer-from-string semantics (leading sign accepted; trailing
  junk yields 0 or truncates)" is that of ISO C \<^verbatim>\<open>strtol\<close> in base 10: white space is
  skipped, one sign is accepted, the longest run of decimal digits is the value, and the
  value is 0 when there is no digit. A value that does not fit a \<^verbatim>\<open>long\<close> (64 bits) is
  \<^verbatim>\<open>LONG_MAX\<close> or \<^verbatim>\<open>LONG_MIN\<close>, as the GNU C library returns it.
\<close>

definition isspace :: "char \<Rightarrow> bool" where
  "isspace c = (c = CHR '' '' \<or> (9 \<le> (of_char c :: nat) \<and> (of_char c :: nat) \<le> 13))"

definition isdigit :: "char \<Rightarrow> bool" where
  "isdigit c = (48 \<le> (of_char c :: nat) \<and> (of_char c :: nat) \<le> 57)"

definition digit_val :: "char \<Rightarrow> nat" where
  "digit_val c = of_char c - 48"

definition digits_value :: "bytes \<Rightarrow> nat" where
  "digits_value ds = foldl (\<lambda>a c. 10 * a + digit_val c) 0 ds"

definition LONG_MAX :: int where "LONG_MAX = 2 ^ 63 - 1"
definition LONG_MIN :: int where "LONG_MIN = - (2 ^ 63)"

definition signed_digits :: "bytes \<Rightarrow> int" where
  "signed_digits s1 =
     (let neg = (case s1 of c # r \<Rightarrow> c = CHR ''-'' | [] \<Rightarrow> False);
          s2 = (case s1 of c # r \<Rightarrow> if c = CHR ''-'' \<or> c = CHR ''+'' then r else s1 | [] \<Rightarrow> s1);
          v = int (digits_value (takeWhile isdigit s2))
      in if neg then max LONG_MIN (- v) else min LONG_MAX v)"

definition atol :: "bytes \<Rightarrow> int" where
  "atol s = signed_digits (dropWhile isspace s)"

text \<open>A C string ends at its first NUL byte.\<close>

definition cstring :: "bytes \<Rightarrow> bytes" where
  "cstring pv = takeWhile (\<lambda>c. c \<noteq> NUL) pv"

text \<open>
  \<^verbatim>\<open>_read_number\<close> and \<^verbatim>\<open>_read_length\<close> write a NUL over the carriage return
  (\<^verbatim>\<open>pv[len] = 0\<close>), read the number with \<^verbatim>\<open>atol\<close> and chop the line off; the byte
  written is chopped with it. \<^verbatim>\<open>_read_length\<close> returns -2 when the line is not finished.
\<close>

definition read_number :: "bytes \<Rightarrow> error + (sv \<times> bytes) option" where
  "read_number buf =
     (case line_length buf (length buf) of
        Inl e \<Rightarrow> Inl e
      | Inr len \<Rightarrow>
          if len \<ge> 0 then
            (let pv = buf[nat len := NUL]
             in Inr (Some (IV (atol (cstring pv)), drop (nat len + 2) pv)))
          else Inr None)"

definition read_length :: "bytes \<Rightarrow> error + (int \<times> bytes)" where
  "read_length buf =
     (case line_length buf (length buf) of
        Inl e \<Rightarrow> Inl e
      | Inr len \<Rightarrow>
          if len \<ge> 0 then
            (let pv = buf[nat len := NUL]
             in Inr (atol (cstring pv), drop (nat len + 2) pv))
          else Inr (- 2, buf))"

text \<open>
  \<^verbatim>\<open>_create_rdb_error\<close> calls \<^verbatim>\<open>RedisDB::Error::new\<close> in scalar context, which returns
  one value or dies in Perl code outside the parser.
\<close>

definition create_rdb_error :: "sv \<Rightarrow> sv" where
  "create_rdb_error msg = RdbError msg"

subsection \<open>The stack of multi-bulk frames\<close>

definition mblk_status_store :: "rdb_parser \<Rightarrow> rdb_parser" where
  "mblk_status_store p =
     p\<lparr>mblk_store := (mblk_reply p, mblk_len p) # mblk_store p, mblk_reply := None\<rparr>"

definition mblk_status_fetch :: "rdb_parser \<Rightarrow> error + rdb_parser" where
  "mblk_status_fetch p =
     (case mblk_store p of
        [] \<Rightarrow> Inl (Croak ''Already at the upper level of multi-bulk reply'')
      | (r, l) # next \<Rightarrow> Inr (p\<lparr>mblk_len := l, mblk_reply := r, mblk_store := next\<rparr>))"

lemma mblk_status_fetch_level:
  "mblk_status_fetch p = Inr p' \<Longrightarrow> mblk_level p' = mblk_level p"
  by (auto simp: mblk_status_fetch_def split: list.splits)

text \<open>
  \<^verbatim>\<open>_mblk_item\<close>: the item is pushed on the current array (\<^verbatim>\<open>av_push\<close> on a NULL array is
  a \<open>Fault\<close>); the result is the flag \<^verbatim>\<open>repeat\<close> and the parser.
\<close>

function mblk_item :: "rdb_parser \<Rightarrow> sv \<Rightarrow> error + (int \<times> rdb_parser)" where
  "mblk_item p item =
     (case mblk_reply p of
        None \<Rightarrow> Inl (Fault ''av_push on a NULL array'')
      | Some av \<Rightarrow>
          (let p1 = p\<lparr>mblk_reply := Some (av @ [item])\<rparr> in
           if mblk_len p1 > 1 then
             Inr (1, p1\<lparr>mblk_len := mblk_len p1 - 1, state := RDBP_WAIT_BUCKS\<rparr>)
           else if mblk_level p1 > 1 then
             (let p2 = p1\<lparr>mblk_level := mblk_level p1 - 1\<rparr>;
                  tmp = AVref (av @ [item])
              in case mblk_status_fetch p2 of
                   Inl e \<Rightarrow> Inl e
                 | Inr p3 \<Rightarrow> mblk_item p3 tmp)
           else Inr (0, p1)))"
  by pat_completeness auto
termination
  by (relation "measure (\<lambda>(p, v). nat (mblk_level p))")
     (auto dest: mblk_status_fetch_level)

declare mblk_item.simps [simp del]

subsection \<open>Completion and dispatch\<close>

text \<open>
  The second half of \<^verbatim>\<open>_reply_completed\<close> (from \<^verbatim>\<open>parser->state = RDBP_CLEAN\<close> on): the
  callback is the head of the queue, which is shifted off, or else the default callback,
  which stays; with neither the function croaks. The call is recorded with the client
  handle and the reply.
\<close>

definition invoke_cb :: "rdb_parser \<Rightarrow> sv \<Rightarrow> error + (int \<times> rdb_parser \<times> call list)" where
  "invoke_cb p reply =
     (let p1 = p\<lparr>state := RDBP_CLEAN\<rparr> in
      case callbacks p1 of
        c # rest \<Rightarrow> Inr (1, p1\<lparr>callbacks := rest\<rparr>, [(c, redisdb p1, reply)])
      | [] \<Rightarrow>
          (case default_cb p1 of
             Some c \<Rightarrow> Inr (1, p1, [(c, redisdb p1, reply)])
           | None \<Rightarrow> Inl (Croak ''No callbacks in the queue and no default callback set'')))"

definition reply_completed :: "rdb_parser \<Rightarrow> sv \<Rightarrow> error + (int \<times> rdb_parser \<times> call list)" where
  "reply_completed p item =
     (if mblk_level p \<noteq> 0 then
        (case mblk_item p item of
           Inl e \<Rightarrow> Inl e
         | Inr (repeat, p1) \<Rightarrow>
             if repeat \<noteq> 0 then Inr (0, p1, [])
             else
               (case mblk_reply p1 of
                  None \<Rightarrow> Inl (Fault ''reference to a NULL array'')
                | Some av \<Rightarrow> invoke_cb (p1\<lparr>mblk_reply := None\<rparr>) (AVref av)))
      else invoke_cb p item)"

subsection \<open>rdb\_parser\_\_parse\_reply\<close>

text \<open>
  \<^verbatim>\<open>sv_utf8_decode\<close> is Perl's: it returns false when the bytes are not valid UTF-8, and
  otherwise turns the UTF-8 flag on when a byte is above 127. Which byte strings Perl
  takes for valid is the parameter \<open>U\<close> of the parser's functions.
\<close>

definition sv_utf8_decode :: "(bytes \<Rightarrow> bool) \<Rightarrow> bytes \<Rightarrow> sv option" where
  "sv_utf8_decode U s =
     (if U s then Some (PV s (list_ex (\<lambda>c. 128 \<le> (of_char c :: nat)) s)) else None)"

text \<open>
  The type tag read in state \<open>RDBP_CLEAN\<close> (the first block of \<^verbatim>\<open>rdb_parser__parse_reply\<close>,
  entered with a buffer that is not empty) and the one read in state \<open>RDBP_WAIT_BUCKS\<close>
  (the last branch of its loop).
\<close>

definition clean_tag :: "rdb_parser \<Rightarrow> error + rdb_parser" where
  "clean_tag p =
     (let p1 = p\<lparr>mblk_level := 0\<rparr>;
          op = hd (buffer p1);
          p2 = p1\<lparr>buffer := tl (buffer p1)\<rparr>
      in if op = CHR ''+'' then Inr (p2\<lparr>state := RDBP_READ_LINE\<rparr>)
         else if op = CHR ''-'' then Inr (p2\<lparr>state := RDBP_READ_ERROR\<rparr>)
         else if op = CHR '':'' then Inr (p2\<lparr>state := RDBP_READ_NUMBER\<rparr>)
         else if op = CHR ''$'' then Inr (p2\<lparr>state := RDBP_READ_BULK_LEN\<rparr>)
         else if op = CHR ''*'' then Inr (p2\<lparr>state := RDBP_READ_MBLK_LEN, mblk_level := 1\<rparr>)
         else Inl (Croak ''Got invalid reply''))"

definition wait_tag :: "rdb_parser \<Rightarrow> error + rdb_parser" where
  "wait_tag p =
     (let op = hd (buffer p);
          p1 = p\<lparr>buffer := tl (buffer p)\<rparr>
      in if op = CHR ''$'' then Inr (p1\<lparr>state := RDBP_READ_BULK_LEN\<rparr>)
         else if op = CHR '':'' then Inr (p1\<lparr>state := RDBP_READ_NUMBER\<rparr>)
         else if op = CHR ''+'' then Inr (p1\<lparr>state := RDBP_READ_LINE\<rparr>)
         else if op = CHR ''-'' then Inr (p1\<lparr>state := RDBP_READ_ERROR\<rparr>)
         else if op = CHR ''*'' then
           Inr (mblk_status_store
                  (p1\<lparr>state := RDBP_READ_MBLK_LEN, mblk_level := mblk_level p1 + 1\<rparr>))
         else Inl (Croak ''Invalid multi-bulk reply. Expected [$:+-*] but got something else''))"

text \<open>
  One iteration of the \<^verbatim>\<open>while (1)\<close> loop: it returns from the function (\<open>Return\<close>, with
  the value returned, the parser and the calls made) or goes round again (\<open>Again\<close>).
  \<open>completed\<close> is \<^verbatim>\<open>if (_reply_completed(parser, x)) return 1;\<close>. In state \<open>RDBP_CLEAN\<close> no
  branch of the loop applies and the loop never exits.
\<close>

datatype step = Return int rdb_parser "call list" | Again rdb_parser

definition completed :: "error + (int \<times> rdb_parser \<times> call list) \<Rightarrow> error + step" where
  "completed r =
     (case r of
        Inl e \<Rightarrow> Inl e
      | Inr (fin, p, cs) \<Rightarrow> if fin \<noteq> 0 then Inr (Return 1 p cs) else Inr (Again p))"

definition parse_step :: "(bytes \<Rightarrow> bool) \<Rightarrow> rdb_parser \<Rightarrow> error + step" where
  "parse_step U p =
     (if length (buffer p) < 2 then Inr (Return 0 p [])
      else case state p of
        RDBP_READ_LINE \<Rightarrow>
          (case read_line (buffer p) of
             Inl e \<Rightarrow> Inl e
           | Inr None \<Rightarrow> Inr (Return 0 p [])
           | Inr (Some (line, buf)) \<Rightarrow> completed (reply_completed (p\<lparr>buffer := buf\<rparr>) line))
      | RDBP_READ_ERROR \<Rightarrow>
          (case read_line (buffer p) of
             Inl e \<Rightarrow> Inl e
           | Inr None \<Rightarrow> Inr (Return 0 p [])
           | Inr (Some (line, buf)) \<Rightarrow>
               completed (reply_completed (p\<lparr>buffer := buf\<rparr>) (create_rdb_error line)))
      | RDBP_READ_NUMBER \<Rightarrow>
          (case read_number (buffer p) of
             Inl e \<Rightarrow> Inl e
           | Inr None \<Rightarrow> Inr (Return 0 p [])
           | Inr (Some (num, buf)) \<Rightarrow> completed (reply_completed (p\<lparr>buffer := buf\<rparr>) num))
      | RDBP_READ_BULK_LEN \<Rightarrow>
          (case read_length (buffer p) of
             Inl e \<Rightarrow> Inl e
           | Inr (len, buf) \<Rightarrow>
               if len \<ge> 0 then
                 Inr (Again (p\<lparr>buffer := buf, state := RDBP_READ_BULK, bulk_len := nat len\<rparr>))
               else if len = - 1 then completed (reply_completed (p\<lparr>buffer := buf\<rparr>) Undef)
               else Inr (Return 0 (p\<lparr>buffer := buf\<rparr>) []))
      | RDBP_READ_BULK \<Rightarrow>
          (if length (buffer p) < 2 + bulk_len p then Inr (Return 0 p [])
           else
             (let bulk = take (bulk_len p) (buffer p);
                  p1 = p\<lparr>buffer := drop (bulk_len p + 2) (buffer p)\<rparr>
              in if utf8 p1 \<noteq> 0 then
                   (case sv_utf8_decode U bulk of
                      None \<Rightarrow> Inl (Croak ''Received invalid UTF-8 string from the server'')
                    | Some b \<Rightarrow> completed (reply_completed p1 b))
                 else completed (reply_completed p1 (PV bulk False))))
      | RDBP_READ_MBLK_LEN \<Rightarrow>
          (case read_length (buffer p) of
             Inl e \<Rightarrow> Inl e
           | Inr (len, buf) \<Rightarrow>
               if len > 0 then
                 Inr (Again (p\<lparr>buffer := buf, mblk_len := nat len, state := RDBP_WAIT_BUCKS,
                                mblk_reply := Some []\<rparr>))
               else if len = 0 \<or> len = - 1 then
                 (let mblk = (if len = 0 then AVref [] else Undef);
                      p1 = p\<lparr>buffer := buf, mblk_level := mblk_level p - 1\<rparr>
                  in if mblk_level p1 > 0 then
                       (case mblk_status_fetch p1 of
                          Inl e \<Rightarrow> Inl e
                        | Inr p2 \<Rightarrow> completed (reply_completed p2 mblk))
                     else completed (reply_completed p1 mblk))
               else Inr (Return 0 (p\<lparr>buffer := buf\<rparr>) []))
      | RDBP_WAIT_BUCKS \<Rightarrow>
          (case wait_tag p of Inl e \<Rightarrow> Inl e | Inr p1 \<Rightarrow> Inr (Again p1))
      | RDBP_CLEAN \<Rightarrow> Inl Hang)"

lemma mblk_item_buffer:
  "mblk_item p item = Inr (r, p') \<Longrightarrow> buffer p' = buffer p"
proof (induction p item arbitrary: r p' rule: mblk_item.induct)
  case (1 p item)
  show ?case
  proof (cases "mblk_reply p")
    case None
    with "1.prems" show ?thesis by (simp add: mblk_item.simps)
  next
    case (Some av)
    show ?thesis
    proof (cases "mblk_len p > 1")
      case True
      with Some "1.prems" show ?thesis by (auto simp: mblk_item.simps)
    next
      case len: False
      show ?thesis
      proof (cases "mblk_level p > 1")
        case False
        with Some len "1.prems" show ?thesis by (auto simp: mblk_item.simps [of p])
      next
        case True
        define p1 where "p1 = p\<lparr>mblk_reply := Some (av @ [item])\<rparr>"
        define p2 where "p2 = p1\<lparr>mblk_level := mblk_level p1 - 1\<rparr>"
        have a: "\<not> 1 < mblk_len p1" and b: "1 < mblk_level p1"
          using len True by (simp_all add: p1_def)
        from Some len True "1.prems" obtain p3 where
          f: "mblk_status_fetch p2 = Inr p3" and
          r: "mblk_item p3 (AVref (av @ [item])) = Inr (r, p')"
          by (auto simp: mblk_item.simps [of p] p1_def p2_def split: sum.splits)
        from f have "buffer p3 = buffer p"
          by (auto simp: mblk_status_fetch_def p1_def p2_def split: list.splits)
        moreover have "buffer p' = buffer p3"
          by (rule "1.IH" [OF Some p1_def a b p2_def refl f r])
        ultimately show ?thesis by simp
      qed
    qed
  qed
qed

lemma invoke_cb_buffer:
  "invoke_cb p reply = Inr (r, p', cs) \<Longrightarrow> buffer p' = buffer p"
  by (auto simp: invoke_cb_def Let_def split: list.splits option.splits)

lemma reply_completed_buffer:
  assumes "reply_completed p item = Inr (r, p', cs)"
  shows "buffer p' = buffer p"
proof (cases "mblk_level p = 0")
  case True
  with assms show ?thesis by (simp add: reply_completed_def invoke_cb_buffer)
next
  case False
  with assms obtain rp p1 where m: "mblk_item p item = Inr (rp, p1)"
    by (auto simp: reply_completed_def split: sum.splits)
  then have b1: "buffer p1 = buffer p" by (rule mblk_item_buffer)
  show ?thesis
  proof (cases "rp = 0")
    case False
    with assms m \<open>mblk_level p \<noteq> 0\<close> b1 show ?thesis by (simp add: reply_completed_def)
  next
    case True
    with assms m \<open>mblk_level p \<noteq> 0\<close> obtain av where
      "invoke_cb (p1\<lparr>mblk_reply := None\<rparr>) (AVref av) = Inr (r, p', cs)"
      by (auto simp: reply_completed_def split: option.splits)
    from invoke_cb_buffer [OF this] b1 show ?thesis by simp
  qed
qed

lemma completed_buffer:
  assumes "completed (reply_completed p item) = Inr s"
  shows "case s of Return r p' cs \<Rightarrow> r = 1 \<and> buffer p' = buffer p | Again p' \<Rightarrow> buffer p' = buffer p"
proof -
  from assms obtain r p' cs where rc: "reply_completed p item = Inr (r, p', cs)"
    by (cases "reply_completed p item") (auto simp: completed_def)
  from reply_completed_buffer [OF rc] rc assms show ?thesis
    by (cases "r = 0") (auto simp: completed_def)
qed

lemma read_line_shorter:
  "read_line buf = Inr (Some (line, buf')) \<Longrightarrow> buf \<noteq> [] \<Longrightarrow> length buf' < length buf"
  by (auto simp: read_line_def split: sum.splits if_splits)

lemma read_number_shorter:
  "read_number buf = Inr (Some (num, buf')) \<Longrightarrow> buf \<noteq> [] \<Longrightarrow> length buf' < length buf"
  by (auto simp: read_number_def Let_def split: sum.splits if_splits)

lemma read_length_shorter:
  "read_length buf = Inr (len, buf') \<Longrightarrow> buf \<noteq> [] \<Longrightarrow> len \<noteq> - 2 \<Longrightarrow>
     length buf' < length buf"
  by (auto simp: read_length_def Let_def split: sum.splits if_splits)

lemma read_length_not_longer:
  "read_length buf = Inr (len, buf') \<Longrightarrow> length buf' \<le> length buf"
  by (auto simp: read_length_def Let_def split: sum.splits if_splits)

lemma wait_tag_buffer:
  "wait_tag p = Inr p' \<Longrightarrow> buffer p' = tl (buffer p)"
  by (auto simp: wait_tag_def Let_def mblk_status_store_def split: if_splits)

lemma mblk_status_fetch_buffer:
  "mblk_status_fetch p = Inr p' \<Longrightarrow> buffer p' = buffer p"
  by (auto simp: mblk_status_fetch_def split: list.splits)

lemma completed_shorter:
  assumes "completed (reply_completed p item) = Inr s" "length (buffer p) < n"
  shows "case s of Again p' \<Rightarrow> length (buffer p') < n
         | Return r p' cs \<Rightarrow> length (buffer p') \<le> n \<and> (r \<noteq> 0 \<longrightarrow> length (buffer p') < n)"
  using completed_buffer [OF assms(1)] assms(2) by (cases s) auto

lemma parse_step_shorter:
  assumes "parse_step U p = Inr s"
  shows "case s of Again p' \<Rightarrow> length (buffer p') < length (buffer p)
         | Return r p' cs \<Rightarrow> length (buffer p') \<le> length (buffer p) \<and>
                             (r \<noteq> 0 \<longrightarrow> length (buffer p') < length (buffer p))"
proof (cases "length (buffer p) < 2")
  case True
  with assms show ?thesis by (auto simp: parse_step_def)
next
  case False
  then have ne: "buffer p \<noteq> []" by auto
  show ?thesis
  proof (cases "state p")
    case RDBP_CLEAN
    with assms False show ?thesis by (simp add: parse_step_def)
  next
    case RDBP_READ_LINE
    show ?thesis
    proof (cases "read_line (buffer p)")
      case (Inl e)
      with assms False RDBP_READ_LINE show ?thesis by (simp add: parse_step_def)
    next
      case (Inr x)
      show ?thesis
      proof (cases x)
        case None
        with Inr assms False RDBP_READ_LINE show ?thesis by (auto simp: parse_step_def)
      next
        case (Some lb)
        obtain line buf where lb: "lb = (line, buf)" by (cases lb)
        from Inr Some lb ne have "length buf < length (buffer p)"
          by (auto dest: read_line_shorter)
        moreover from Inr Some lb assms False RDBP_READ_LINE
        have "completed (reply_completed (p\<lparr>buffer := buf\<rparr>) line) = Inr s"
          by (simp add: parse_step_def)
        ultimately show ?thesis using completed_shorter [of "p\<lparr>buffer := buf\<rparr>" line s] by simp
      qed
    qed
  next
    case RDBP_READ_ERROR
    show ?thesis
    proof (cases "read_line (buffer p)")
      case (Inl e)
      with assms False RDBP_READ_ERROR show ?thesis by (simp add: parse_step_def)
    next
      case (Inr x)
      show ?thesis
      proof (cases x)
        case None
        with Inr assms False RDBP_READ_ERROR show ?thesis by (auto simp: parse_step_def)
      next
        case (Some lb)
        obtain line buf where lb: "lb = (line, buf)" by (cases lb)
        from Inr Some lb ne have "length buf < length (buffer p)"
          by (auto dest: read_line_shorter)
        moreover from Inr Some lb assms False RDBP_READ_ERROR
        have "completed (reply_completed (p\<lparr>buffer := buf\<rparr>) (create_rdb_error line)) = Inr s"
          by (simp add: parse_step_def)
        ultimately show ?thesis
          using completed_shorter [of "p\<lparr>buffer := buf\<rparr>" "create_rdb_error line" s] by simp
      qed
    qed
  next
    case RDBP_READ_NUMBER
    show ?thesis
    proof (cases "read_number (buffer p)")
      case (Inl e)
      with assms False RDBP_READ_NUMBER show ?thesis by (simp add: parse_step_def)
    next
      case (Inr x)
      show ?thesis
      proof (cases x)
        case None
        with Inr assms False RDBP_READ_NUMBER show ?thesis by (auto simp: parse_step_def)
      next
        case (Some lb)
        obtain num buf where lb: "lb = (num, buf)" by (cases lb)
        from Inr Some lb ne have "length buf < length (buffer p)"
          by (auto dest: read_number_shorter)
        moreover from Inr Some lb assms False RDBP_READ_NUMBER
        have "completed (reply_completed (p\<lparr>buffer := buf\<rparr>) num) = Inr s"
          by (simp add: parse_step_def)
        ultimately show ?thesis using completed_shorter [of "p\<lparr>buffer := buf\<rparr>" num s] by simp
      qed
    qed
  next
    case RDBP_READ_BULK_LEN
    show ?thesis
    proof (cases "read_length (buffer p)")
      case (Inl e)
      with assms False RDBP_READ_BULK_LEN show ?thesis by (simp add: parse_step_def)
    next
      case (Inr x)
      obtain len buf where x: "x = (len, buf)" by (cases x)
      from Inr x have le: "length buf \<le> length (buffer p)" by (auto dest: read_length_not_longer)
      from Inr x ne have lt: "len \<noteq> - 2 \<Longrightarrow> length buf < length (buffer p)"
        by (auto dest: read_length_shorter)
      consider "len \<ge> 0" | "len = - 1" | "len < - 1" by linarith
      then show ?thesis
      proof cases
        case 1
        with Inr x assms False RDBP_READ_BULK_LEN lt show ?thesis by (auto simp: parse_step_def)
      next
        case 2
        with Inr x assms False RDBP_READ_BULK_LEN
        have "completed (reply_completed (p\<lparr>buffer := buf\<rparr>) Undef) = Inr s"
          by (simp add: parse_step_def)
        with lt 2 show ?thesis using completed_shorter [of "p\<lparr>buffer := buf\<rparr>" Undef s] by simp
      next
        case 3
        with Inr x assms False RDBP_READ_BULK_LEN le show ?thesis by (auto simp: parse_step_def)
      qed
    qed
  next
    case RDBP_READ_BULK
    show ?thesis
    proof (cases "length (buffer p) < 2 + bulk_len p")
      case True
      with assms False RDBP_READ_BULK show ?thesis by (auto simp: parse_step_def)
    next
      case enough: False
      define p1 where "p1 = p\<lparr>buffer := drop (bulk_len p + 2) (buffer p)\<rparr>"
      have lt: "length (buffer p1) < length (buffer p)" using ne by (simp add: p1_def)
      from assms False enough RDBP_READ_BULK obtain b where
        "completed (reply_completed p1 b) = Inr s"
        by (auto simp: parse_step_def Let_def p1_def split: if_splits option.splits)
      from completed_shorter [OF this lt] show ?thesis .
    qed
  next
    case RDBP_READ_MBLK_LEN
    show ?thesis
    proof (cases "read_length (buffer p)")
      case (Inl e)
      with assms False RDBP_READ_MBLK_LEN show ?thesis by (simp add: parse_step_def)
    next
      case (Inr x)
      obtain len buf where x: "x = (len, buf)" by (cases x)
      from Inr x have le: "length buf \<le> length (buffer p)" by (auto dest: read_length_not_longer)
      from Inr x ne have lt: "len \<noteq> - 2 \<Longrightarrow> length buf < length (buffer p)"
        by (auto dest: read_length_shorter)
      consider "len > 0" | "len = 0 \<or> len = - 1" | "len < - 1" by linarith
      then show ?thesis
      proof cases
        case 1
        with Inr x assms False RDBP_READ_MBLK_LEN lt show ?thesis by (auto simp: parse_step_def)
      next
        case 2
        define p1 where "p1 = p\<lparr>buffer := buf, mblk_level := mblk_level p - 1\<rparr>"
        from 2 lt have lt1: "length (buffer p1) < length (buffer p)" by (auto simp: p1_def)
        from 2 Inr x assms False RDBP_READ_MBLK_LEN obtain q b where
          "completed (reply_completed q b) = Inr s" "buffer q = buffer p1"
          by (auto simp: parse_step_def Let_def p1_def split: if_splits sum.splits
                   dest: mblk_status_fetch_buffer)
        with lt1 show ?thesis using completed_shorter [of q b s "length (buffer p)"] by simp
      next
        case 3
        with Inr x assms False RDBP_READ_MBLK_LEN le show ?thesis by (auto simp: parse_step_def)
      qed
    qed
  next
    case RDBP_WAIT_BUCKS
    with assms False obtain p1 where "wait_tag p = Inr p1" "s = Again p1"
      by (auto simp: parse_step_def split: sum.splits)
    with ne show ?thesis by (auto dest!: wait_tag_buffer)
  qed
qed

text \<open>The \<^verbatim>\<open>while (1)\<close> loop: every iteration that goes round again has consumed a byte.\<close>

function parse_loop :: "(bytes \<Rightarrow> bool) \<Rightarrow> rdb_parser \<Rightarrow> error + (int \<times> rdb_parser \<times> call list)" where
  "parse_loop U p =
     (case parse_step U p of
        Inl e \<Rightarrow> Inl e
      | Inr (Return r p' cs) \<Rightarrow> Inr (r, p', cs)
      | Inr (Again p') \<Rightarrow> parse_loop U p')"
  by pat_completeness auto
termination parse_loop
proof (relation "measure (\<lambda>(U, p). length (buffer p))")
  show "wf (measure (\<lambda>(U, p). length (buffer p)))" by simp
next
  fix U p x2 p'
  assume "parse_step U p = Inr x2" "x2 = Again p'"
  then show "((U, p'), (U, p)) \<in> measure (\<lambda>(U, p). length (buffer p))"
    using parse_step_shorter [of U p x2] by simp
qed

declare parse_loop.simps [simp del]

text \<open>
  \<^verbatim>\<open>rdb_parser__parse_reply\<close>: 0 at once on an empty buffer; the type tag when the state
  is \<open>RDBP_CLEAN\<close>; then the loop. The result is the value returned (1 when a reply was
  delivered, 0 when more bytes are needed), the parser and the calls made.
\<close>

definition rdb_parser__parse_reply ::
  "(bytes \<Rightarrow> bool) \<Rightarrow> rdb_parser \<Rightarrow> error + (int \<times> rdb_parser \<times> call list)" where
  "rdb_parser__parse_reply U p =
     (if length (buffer p) = 0 then Inr (0, p, [])
      else case (if state p = RDBP_CLEAN then clean_tag p else Inr p) of
             Inl e \<Rightarrow> Inl e
           | Inr p1 \<Rightarrow> parse_loop U p1)"

section \<open>Claims about the callbacks\<close>

lemma propagate_all:
  "rdb_parser__propagate_reply p reply =
     (p\<lparr>callbacks := [], default_cb := None\<rparr>,
      map (\<lambda>c. (c, redisdb p, reply))
          (callbacks p @ (case default_cb p of None \<Rightarrow> [] | Some c \<Rightarrow> [c])))"
proof (induction p reply rule: rdb_parser__propagate_reply.induct)
  case (1 p reply)
  show ?case
  proof (cases "callbacks p")
    case (Cons c rest)
    with "1.IH"(2) [OF Cons] show ?thesis
      by (subst rdb_parser__propagate_reply.simps) simp
  next
    case Nil
    show ?thesis
    proof (cases "default_cb p")
      case None
      with Nil show ?thesis
        by (subst rdb_parser__propagate_reply.simps) simp
    next
      case (Some c)
      with Nil "1.IH"(1) [OF Nil Some] show ?thesis
        by (subst rdb_parser__propagate_reply.simps) simp
    qed
  qed
qed

text \<open>
  C6. \<^verbatim>\<open>propagate\<close> calls every callback of the queue in queue order and then the
  default callback when there is one, each with the client handle and the reply; the
  queue is empty and the default callback cleared afterwards. Delivery, on an empty
  queue, calls the default callback and leaves it installed.
\<close>

theorem propagate_drains_queue_then_default:
  "rdb_parser__propagate_reply p reply =
     (p\<lparr>callbacks := [], default_cb := None\<rparr>,
      map (\<lambda>c. (c, redisdb p, reply))
          (callbacks p @ (case default_cb p of None \<Rightarrow> [] | Some c \<Rightarrow> [c])))
   \<and> invoke_cb (p\<lparr>callbacks := [], default_cb := Some d\<rparr>) reply =
       Inr (1, p\<lparr>callbacks := [], default_cb := Some d, state := RDBP_CLEAN\<rparr>,
            [(d, redisdb p, reply)])"
  by (simp add: propagate_all invoke_cb_def)

text \<open>
  The scenario of the spec: three callbacks and a default callback, all four called in
  order with the same value.
\<close>

lemma propagate_on_disconnect:
  "rdb_parser__propagate_reply
     ((rdb_parser__init (Some 7) 0 0 0 0)\<lparr>callbacks := [1, 2, 3], default_cb := Some 4\<rparr>)
     (RdbError (PV ''EOF'' False)) =
   ((rdb_parser__init (Some 7) 0 0 0 0)\<lparr>callbacks := [], default_cb := None\<rparr>,
    [(1, Some 7, RdbError (PV ''EOF'' False)), (2, Some 7, RdbError (PV ''EOF'' False)),
     (3, Some 7, RdbError (PV ''EOF'' False)), (4, Some 7, RdbError (PV ''EOF'' False))])"
  by (simp add: propagate_all rdb_parser__init_def)

section \<open>The empty buffer\<close>

text \<open>
  C10. On an empty buffer \<^verbatim>\<open>rdb_parser__parse_reply\<close> returns 0 in every state, with no
  call made and the parser as it was: no byte is consumed, no error raised, and the
  buffer, the state, the stack and the callbacks are unchanged.
\<close>

theorem parse_reply_empty_buffer:
  "buffer p = [] \<Longrightarrow> rdb_parser__parse_reply U p = Inr (0, p, [])"
  by (simp add: rdb_parser__parse_reply_def)

theorem parse_reply_empty_buffer_witness:
  "buffer (rdb_parser__init None 0 5 0 0) = [] \<and>
   rdb_parser__parse_reply (\<lambda>s. True) (rdb_parser__init None 0 5 0 0) =
     Inr (0, rdb_parser__init None 0 5 0 0, [])"
  using parse_reply_empty_buffer [of "rdb_parser__init None 0 5 0 0" "\<lambda>s. True"]
  by (simp add: rdb_parser__init_def)

section \<open>The line scanner and the first CRLF\<close>

text \<open>
  \<open>first_crlf buf\<close> is the offset of the first carriage return that a line feed follows,
  if there is one: the specification of the scanner.
\<close>

fun first_crlf :: "bytes \<Rightarrow> nat option" where
  "first_crlf (a # b # r) =
     (if a = CR \<and> b = LF then Some 0 else map_option Suc (first_crlf (b # r)))"
| "first_crlf [a] = None"
| "first_crlf [] = None"

lemma first_crlf_Some:
  "first_crlf buf = Some k \<Longrightarrow>
     k + 2 \<le> length buf \<and> buf ! k = CR \<and> buf ! (k + 1) = LF \<and>
     (\<forall>j<k. \<not> (buf ! j = CR \<and> buf ! (j + 1) = LF))"
proof (induction buf arbitrary: k rule: first_crlf.induct)
  case (1 a b r)
  show ?case
  proof (cases "a = CR \<and> b = LF")
    case True
    with "1.prems" show ?thesis by auto
  next
    case False
    with "1.prems" obtain k' where k': "first_crlf (b # r) = Some k'" "k = Suc k'"
      by auto
    from "1.IH" [OF False k'(1)] have ih:
      "k' + 2 \<le> length (b # r)" "(b # r) ! k' = CR" "(b # r) ! (k' + 1) = LF"
      "\<forall>j<k'. \<not> ((b # r) ! j = CR \<and> (b # r) ! (j + 1) = LF)" by auto
    have "\<not> ((a # b # r) ! j = CR \<and> (a # b # r) ! (j + 1) = LF)" if "j < k" for j
    proof (cases j)
      case 0
      with False show ?thesis by simp
    next
      case (Suc j')
      with that k'(2) ih(4) show ?thesis by simp
    qed
    with ih k'(2) show ?thesis by simp
  qed
qed simp_all



lemma first_crlf_append:
  "first_crlf buf = Some k \<Longrightarrow> first_crlf (buf @ ext) = Some k"
proof (induction buf arbitrary: k rule: first_crlf.induct)
  case (1 a b r)
  then show ?case by (auto split: if_splits)
qed simp_all

lemma first_crlf_line:
  "first_crlf line = None \<Longrightarrow> first_crlf (line @ CR # LF # rest) = Some (length line)"
proof (induction line rule: first_crlf.induct)
  case (1 a b r)
  then show ?case by (auto split: if_splits)
qed simp_all

lemma line_scan_first_crlf:
  "i \<le> length buf - 1 \<Longrightarrow>
   line_scan buf (length buf - 1) i =
     Inr (case first_crlf (drop i buf) of None \<Rightarrow> - 1 | Some k \<Rightarrow> int (i + k))"
proof (induction "length buf - 1 - i" arbitrary: i)
  case 0
  then have i: "i = length buf - 1" by simp
  have "length (drop i buf) \<le> 1" using i by simp
  then have "first_crlf (drop i buf) = None"
    by (cases "drop i buf" rule: first_crlf.cases) simp_all
  with i show ?case by (subst line_scan.simps) simp
next
  case (Suc n)
  then have lt: "i < length buf - 1" by simp
  then have d: "drop i buf = buf ! i # buf ! (i + 1) # drop (i + 2) buf"
    by (metis Cons_nth_drop_Suc Suc_eq_plus1 add_2_eq_Suc' less_diff_conv less_imp_Suc_add
          less_add_Suc1 add_lessD1)
  have ih: "line_scan buf (length buf - 1) (i + 1) =
     Inr (case first_crlf (drop (i + 1) buf) of None \<Rightarrow> - 1 | Some k \<Rightarrow> int (i + 1 + k))"
    using Suc.hyps(1) [of "i + 1"] Suc.hyps(2) lt by simp
  have d1: "drop (i + 1) buf = buf ! (i + 1) # drop (i + 2) buf"
    using d by (metis Suc_eq_plus1 drop_Suc list.sel(3) tl_drop)
  show ?case
  proof (cases "buf ! i = CR \<and> buf ! (i + 1) = LF")
    case True
    with lt d show ?thesis by (subst line_scan.simps) simp
  next
    case False
    with lt d d1 ih show ?thesis
      by (subst line_scan.simps) (auto split: option.splits)
  qed
qed

lemma line_length_first_crlf:
  "buf \<noteq> [] \<Longrightarrow>
   line_length buf (length buf) =
     Inr (case first_crlf buf of None \<Rightarrow> - 1 | Some k \<Rightarrow> int k)"
  using line_scan_first_crlf [of 0 buf]
  by (cases "first_crlf buf") (simp_all add: line_length_def scan_bound_def)

lemma read_line_first_crlf:
  "buf \<noteq> [] \<Longrightarrow>
   read_line buf =
     Inr (case first_crlf buf of None \<Rightarrow> None
          | Some k \<Rightarrow> Some (PV (take k buf) False, drop (k + 2) buf))"
  by (simp add: read_line_def line_length_first_crlf split: option.splits)

lemma cstring_update:
  "k < length buf \<Longrightarrow> cstring (buf[k := NUL]) = cstring (take k buf)"
  by (simp add: cstring_def upd_conv_take_nth_drop takeWhile_tail)

lemma read_number_first_crlf:
  "buf \<noteq> [] \<Longrightarrow>
   read_number buf =
     Inr (case first_crlf buf of None \<Rightarrow> None
          | Some k \<Rightarrow> Some (IV (atol (cstring (take k buf))), drop (k + 2) buf))"
  by (auto simp: read_number_def line_length_first_crlf Let_def cstring_update
           split: option.splits dest!: first_crlf_Some)

lemma read_length_first_crlf:
  "buf \<noteq> [] \<Longrightarrow>
   read_length buf =
     Inr (case first_crlf buf of None \<Rightarrow> (- 2, buf)
          | Some k \<Rightarrow> (atol (cstring (take k buf)), drop (k + 2) buf))"
  by (auto simp: read_length_def line_length_first_crlf Let_def cstring_update
           split: option.splits dest!: first_crlf_Some)



text \<open>
  The empty buffer, which no call passes to a line reader: the bound \<^verbatim>\<open>length - 1\<close>
  wraps around and the scan reads the byte at offset 0.
\<close>

lemma line_length_empty_buffer:
  "line_length [] 0 = Inl (Fault ''read past the end of the buffer'')"
  by (simp add: line_length_def scan_bound_def line_scan.simps)

section \<open>Reading numbers\<close>

lemma isdigit_not_isspace: "isdigit c \<Longrightarrow> \<not> isspace c"
  by (auto simp: isdigit_def isspace_def)

lemma isdigit_not_sign: "isdigit c \<Longrightarrow> c \<noteq> CHR ''-'' \<and> c \<noteq> CHR ''+''"
  by (auto simp: isdigit_def)

lemma isdigit_not_NUL: "isdigit c \<Longrightarrow> c \<noteq> NUL"
  by (auto simp: isdigit_def)

lemma isspace_not_NUL: "isspace c \<Longrightarrow> c \<noteq> NUL"
  by (auto simp: isspace_def)

lemma dropWhile_takeWhile_commute:
  "(\<And>c. Q c \<Longrightarrow> P c) \<Longrightarrow> dropWhile Q (takeWhile P s) = takeWhile P (dropWhile Q s)"
  by (induction s) auto

lemma takeWhile_takeWhile_weaker:
  "(\<And>c. Q c \<Longrightarrow> P c) \<Longrightarrow> takeWhile Q (takeWhile P s) = takeWhile Q s"
  by (induction s) auto

lemma signed_digits_cstring: "signed_digits (takeWhile (\<lambda>c. c \<noteq> NUL) s1) = signed_digits s1"
proof -
  let ?P = "\<lambda>c. c \<noteq> NUL"
  have t: "takeWhile isdigit (takeWhile ?P r) = takeWhile isdigit r" for r
    by (rule takeWhile_takeWhile_weaker) (rule isdigit_not_NUL)
  show ?thesis
  proof (cases s1)
    case Nil
    then show ?thesis by simp
  next
    case (Cons c r)
    show ?thesis
    proof (cases "c = NUL")
      case True
      with Cons show ?thesis by (simp add: signed_digits_def isdigit_def)
    next
      case False
      with Cons t [of r] t [of "c # r"] show ?thesis
        by (simp add: signed_digits_def)
    qed
  qed
qed

lemma atol_cstring: "atol (cstring s) = atol s"
proof -
  have "dropWhile isspace (takeWhile (\<lambda>c. c \<noteq> NUL) s) =
        takeWhile (\<lambda>c. c \<noteq> NUL) (dropWhile isspace s)"
    by (rule dropWhile_takeWhile_commute) (rule isspace_not_NUL)
  then show ?thesis by (simp add: atol_def cstring_def signed_digits_cstring)
qed

lemma dropWhile_isspace_skip:
  assumes "list_all isspace ws" "r = [] \<or> \<not> isspace (hd r)"
  shows "dropWhile isspace (ws @ r) = r"
proof -
  have "dropWhile isspace (ws @ r) = dropWhile isspace r"
    using assms(1) by (intro dropWhile_append2) (simp add: list_all_iff)
  also have "\<dots> = r" using assms(2) by (cases r) auto
  finally show ?thesis .
qed

lemma takeWhile_isdigit_run:
  assumes "list_all isdigit ds" "junk = [] \<or> \<not> isdigit (hd junk)"
  shows "takeWhile isdigit (ds @ junk) = ds"
proof -
  have "takeWhile isdigit (ds @ junk) = ds @ takeWhile isdigit junk"
    using assms(1) by (intro takeWhile_append2) (simp add: list_all_iff)
  also have "takeWhile isdigit junk = []" using assms(2) by (cases junk) auto
  finally show ?thesis by simp
qed

text \<open>
  What \<open>atol\<close> returns on white space, an optional sign, a run of digits and a rest that
  does not go on with a digit, when the three parts are as long as they can be.
\<close>

lemma atol_parts:
  assumes ws: "list_all isspace ws"
    and sg: "sg = [] \<or> sg = ''-'' \<or> sg = ''+''"
    and ds: "list_all isdigit ds"
    and junk: "junk = [] \<or> \<not> isdigit (hd junk)"
    and nosign: "sg = [] \<and> ds = [] \<longrightarrow>
                   junk = [] \<or> (\<not> isspace (hd junk) \<and> hd junk \<noteq> CHR ''-'' \<and> hd junk \<noteq> CHR ''+'')"
  shows "atol (ws @ sg @ ds @ junk) =
           (if sg = ''-'' then max LONG_MIN (- int (digits_value ds))
            else min LONG_MAX (int (digits_value ds)))"
proof -
  let ?r = "sg @ ds @ junk"
  have hd_ds: "ds \<noteq> [] \<Longrightarrow> isdigit (hd ds)" using ds by (cases ds) auto
  have r: "?r = [] \<or> \<not> isspace (hd ?r)"
  proof (cases "sg = []")
    case False
    with sg show ?thesis by (auto simp: isspace_def)
  next
    case True
    show ?thesis
    proof (cases "ds = []")
      case False
      with True hd_ds show ?thesis by (auto dest: isdigit_not_isspace)
    next
      case dsn: True
      with True nosign show ?thesis by auto
    qed
  qed
  have s1: "dropWhile isspace (ws @ ?r) = ?r"
    by (rule dropWhile_isspace_skip [OF ws r])
  have run: "takeWhile isdigit (ds @ junk) = ds"
    by (rule takeWhile_isdigit_run [OF ds junk])
  have a: "atol (ws @ ?r) = signed_digits ?r" using s1 by (simp add: atol_def)
  consider (minus) "sg = ''-''" | (plus) "sg = ''+''" | (none) "sg = []" using sg by blast
  then show ?thesis
  proof cases
    case minus
    with a run show ?thesis by (simp add: signed_digits_def)
  next
    case plus
    with a run show ?thesis by (simp add: signed_digits_def)
  next
    case none
    show ?thesis
    proof (cases "ds @ junk")
      case Nil
      with none a show ?thesis by (simp add: signed_digits_def digits_value_def LONG_MAX_def)
    next
      case (Cons c t)
      have c: "c \<noteq> CHR ''-'' \<and> c \<noteq> CHR ''+''"
      proof (cases "ds = []")
        case False
        with Cons hd_ds have "isdigit c" by (cases ds) auto
        then show ?thesis by (rule isdigit_not_sign)
      next
        case True
        with Cons none nosign show ?thesis by auto
      qed
      have "signed_digits (c # t) = min LONG_MAX (int (digits_value (takeWhile isdigit (c # t))))"
        using c by (simp add: signed_digits_def)
      with run Cons none a show ?thesis by simp
    qed
  qed
qed

subsection \<open>Decimal numerals\<close>

text \<open>The decimal numeral of a number, as a server writes a length or an integer.\<close>

definition digit_char :: "nat \<Rightarrow> char" where
  "digit_char d = char_of (48 + d)"

fun show_nat :: "nat \<Rightarrow> bytes" where
  "show_nat n = (if n < 10 then [digit_char n] else show_nat (n div 10) @ [digit_char (n mod 10)])"

declare show_nat.simps [simp del]

definition show_int :: "int \<Rightarrow> bytes" where
  "show_int n = (if n < 0 then CHR ''-'' # show_nat (nat (- n)) else show_nat (nat n))"

lemma of_char_digit_char: "d < 10 \<Longrightarrow> (of_char (digit_char d) :: nat) = 48 + d"
  by (simp add: digit_char_def)

lemma isdigit_digit_char: "d < 10 \<Longrightarrow> isdigit (digit_char d)"
  by (simp add: isdigit_def of_char_digit_char)

lemma digit_val_digit_char: "d < 10 \<Longrightarrow> digit_val (digit_char d) = d"
  by (simp add: digit_val_def of_char_digit_char)

lemma show_nat_digits: "list_all isdigit (show_nat n)"
proof (induction n rule: show_nat.induct)
  case (1 n)
  then show ?case
    by (subst show_nat.simps) (simp add: isdigit_digit_char)
qed

lemma show_nat_not_empty: "show_nat n \<noteq> []"
  by (subst show_nat.simps) simp

lemma digits_value_snoc: "digits_value (ds @ [c]) = 10 * digits_value ds + digit_val c"
  by (simp add: digits_value_def)

lemma digits_value_show_nat: "digits_value (show_nat n) = n"
proof (induction n rule: show_nat.induct)
  case (1 n)
  show ?case
  proof (cases "n < 10")
    case True
    then show ?thesis
      by (subst show_nat.simps) (simp add: digits_value_def digit_val_digit_char)
  next
    case False
    with "1.IH" show ?thesis
      by (subst show_nat.simps) (simp add: digits_value_snoc digit_val_digit_char)
  qed
qed

lemma atol_show_nat: "int n \<le> LONG_MAX \<Longrightarrow> atol (show_nat n) = int n"
  using atol_parts [of "[]" "[]" "show_nat n" "[]"]
  by (simp add: show_nat_digits show_nat_not_empty digits_value_show_nat)

lemma atol_show_int: "LONG_MIN \<le> n \<Longrightarrow> n \<le> LONG_MAX \<Longrightarrow> atol (show_int n) = n"
proof (cases "n < 0")
  case False
  assume "n \<le> LONG_MAX"
  with False atol_show_nat [of "nat n"] show ?thesis by (simp add: show_int_def)
next
  case True
  assume "LONG_MIN \<le> n"
  with True atol_parts [of "[]" "''-''" "show_nat (nat (- n))" "[]"] show ?thesis
    by (simp add: show_int_def show_nat_digits digits_value_show_nat)
qed

lemma first_crlf_no_CR: "CR \<notin> set s \<Longrightarrow> first_crlf s = None"
  by (induction s rule: first_crlf.induct) auto

lemma isdigit_not_CR: "isdigit c \<Longrightarrow> c \<noteq> CR"
  by (auto simp: isdigit_def)

lemma digits_no_CR: "list_all isdigit ds \<Longrightarrow> CR \<notin> set ds"
  by (auto simp: list_all_iff dest: isdigit_not_CR)

lemma first_crlf_show_nat: "first_crlf (show_nat n) = None"
  by (intro first_crlf_no_CR digits_no_CR show_nat_digits)

lemma first_crlf_show_int: "first_crlf (show_int n) = None"
  using digits_no_CR [OF show_nat_digits]
  by (intro first_crlf_no_CR) (simp add: show_int_def)

lemma read_number_line:
  assumes "first_crlf line = None"
  shows "read_number (line @ CR # LF # rest) = Inr (Some (IV (atol line), rest))"
proof -
  have "first_crlf (line @ CR # LF # rest) = Some (length line)"
    by (rule first_crlf_line [OF assms])
  then show ?thesis
    using read_number_first_crlf [of "line @ CR # LF # rest"] by (simp add: atol_cstring)
qed

lemma read_length_line:
  assumes "first_crlf line = None"
  shows "read_length (line @ CR # LF # rest) = Inr (atol line, rest)"
proof -
  have "first_crlf (line @ CR # LF # rest) = Some (length line)"
    by (rule first_crlf_line [OF assms])
  then show ?thesis
    using read_length_first_crlf [of "line @ CR # LF # rest"] by (simp add: atol_cstring)
qed

lemma read_line_line:
  assumes "first_crlf line = None"
  shows "read_line (line @ CR # LF # rest) = Inr (Some (PV line False, rest))"
proof -
  have "first_crlf (line @ CR # LF # rest) = Some (length line)"
    by (rule first_crlf_line [OF assms])
  then show ?thesis
    using read_line_first_crlf [of "line @ CR # LF # rest"] by simp
qed

text \<open>The decimal numeral of an integer in the range of a \<^verbatim>\<open>long\<close> is read back.\<close>

lemma read_number_show_int:
  "LONG_MIN \<le> n \<Longrightarrow> n \<le> LONG_MAX \<Longrightarrow>
   read_number (show_int n @ CR # LF # rest) = Inr (Some (IV n, rest))"
  using read_number_line [OF first_crlf_show_int, of n rest] by (simp add: atol_show_int)

lemma read_length_show_nat:
  "int n \<le> LONG_MAX \<Longrightarrow> read_length (show_nat n @ CR # LF # rest) = Inr (int n, rest)"
  using read_length_line [OF first_crlf_show_nat, of n rest] by (simp add: atol_show_nat)

lemma atol_minus_one: "atol ''-1'' = - 1"
  by (simp add: atol_def isspace_def signed_digits_def isdigit_def digits_value_def
        digit_val_def LONG_MIN_def)

lemma read_length_minus_one: "read_length (''-1'' @ CR # LF # rest) = Inr (- 1, rest)"
  using read_length_line [of "''-1''" rest] by (simp add: atol_minus_one)











section \<open>The driver\<close>

lemma parse_loop_shorter:
  "parse_loop U p = Inr (r, p', cs) \<Longrightarrow>
     length (buffer p') \<le> length (buffer p) \<and> (r \<noteq> 0 \<longrightarrow> length (buffer p') < length (buffer p))"
proof (induction U p arbitrary: r p' cs rule: parse_loop.induct)
  case (1 U p)
  show ?case
  proof (cases "parse_step U p")
    case (Inl e)
    with "1.prems" show ?thesis by (simp add: parse_loop.simps [of U p])
  next
    case (Inr s)
    note sh = parse_step_shorter [OF Inr]
    show ?thesis
    proof (cases s)
      case (Return r0 p0 cs0)
      with Inr "1.prems" sh show ?thesis by (simp add: parse_loop.simps [of U p])
    next
      case (Again p1)
      with Inr "1.prems" have "parse_loop U p1 = Inr (r, p', cs)"
        by (simp add: parse_loop.simps [of U p])
      from "1.IH" [OF Inr Again this] sh Again show ?thesis by simp
    qed
  qed
qed

lemma clean_tag_buffer: "clean_tag p = Inr p' \<Longrightarrow> buffer p' = tl (buffer p)"
  by (auto simp: clean_tag_def Let_def split: if_splits)

lemma parse_reply_shorter:
  assumes "rdb_parser__parse_reply U p = Inr (r, p', cs)"
  shows "length (buffer p') \<le> length (buffer p) \<and>
         (r \<noteq> 0 \<longrightarrow> length (buffer p') < length (buffer p))"
proof (cases "buffer p = []")
  case True
  with assms show ?thesis by (simp add: rdb_parser__parse_reply_def)
next
  case False
  show ?thesis
  proof (cases "state p = RDBP_CLEAN")
    case True
    with False assms obtain p1 where t: "clean_tag p = Inr p1" and
      l: "parse_loop U p1 = Inr (r, p', cs)"
      by (auto simp: rdb_parser__parse_reply_def split: sum.splits)
    from clean_tag_buffer [OF t] False have "length (buffer p1) < length (buffer p)" by simp
    with parse_loop_shorter [OF l] show ?thesis by simp
  next
    case st: False
    with False assms have "parse_loop U p = Inr (r, p', cs)"
      by (simp add: rdb_parser__parse_reply_def)
    from parse_loop_shorter [OF this] show ?thesis .
  qed
qed

text \<open>
  Modelled from the spec: the driver and \<^verbatim>\<open>append_bytes\<close> are Perl code of the client,
  which is not under src/. "The buffer is appended externally (the driver writes
  incoming socket bytes into it)" and "the driver calls parse repeatedly until it returns
  no reply". \<open>drive\<close> returns the parser, the calls made and the number of times
  \<^verbatim>\<open>parse_reply\<close> returned 1; \<open>feed_chunks\<close> appends the chunks one at a time and drives
  the parser after each.
\<close>

definition append_bytes :: "rdb_parser \<Rightarrow> bytes \<Rightarrow> rdb_parser" where
  "append_bytes p chunk = p\<lparr>buffer := buffer p @ chunk\<rparr>"

function drive :: "(bytes \<Rightarrow> bool) \<Rightarrow> rdb_parser \<Rightarrow> error + (rdb_parser \<times> call list \<times> nat)" where
  "drive U p =
     (case rdb_parser__parse_reply U p of
        Inl e \<Rightarrow> Inl e
      | Inr (r, p1, cs) \<Rightarrow>
          if r = 0 then Inr (p1, cs, 0)
          else
            (case drive U p1 of
               Inl e \<Rightarrow> Inl e
             | Inr (p2, cs2, n) \<Rightarrow> Inr (p2, cs @ cs2, Suc n)))"
  by pat_completeness auto
termination drive
proof (relation "measure (\<lambda>(U, p). length (buffer p))")
  show "wf (measure (\<lambda>(U, p). length (buffer p)))" by simp
next
  fix U p x2 r y p1 cs
  assume "rdb_parser__parse_reply U p = Inr x2" "(r, y) = x2" "(p1, cs) = y" "r \<noteq> 0"
  then have "rdb_parser__parse_reply U p = Inr (r, p1, cs)" by simp
  from parse_reply_shorter [OF this] \<open>r \<noteq> 0\<close>
  show "((U, p1), (U, p)) \<in> measure (\<lambda>(U, p). length (buffer p))" by simp
qed

declare drive.simps [simp del]

fun feed_chunks ::
  "(bytes \<Rightarrow> bool) \<Rightarrow> rdb_parser \<Rightarrow> bytes list \<Rightarrow> error + (rdb_parser \<times> call list \<times> nat)" where
  "feed_chunks U p [] = Inr (p, [], 0)"
| "feed_chunks U p (c # chunks) =
     (case drive U (append_bytes p c) of
        Inl e \<Rightarrow> Inl e
      | Inr (p1, cs1, n1) \<Rightarrow>
          (case feed_chunks U p1 chunks of
             Inl e \<Rightarrow> Inl e
           | Inr (p2, cs2, n2) \<Rightarrow> Inr (p2, cs1 @ cs2, n1 + n2)))"

section \<open>Type tags\<close>

text \<open>The table of the spec: the state a type tag leads to, and no state for another byte.\<close>

definition tag_state :: "char \<Rightarrow> pstate option" where
  "tag_state c =
     (if c = CHR ''+'' then Some RDBP_READ_LINE
      else if c = CHR ''-'' then Some RDBP_READ_ERROR
      else if c = CHR '':'' then Some RDBP_READ_NUMBER
      else if c = CHR ''$'' then Some RDBP_READ_BULK_LEN
      else if c = CHR ''*'' then Some RDBP_READ_MBLK_LEN
      else None)"

lemma clean_tag_table:
  "buffer p = c # rest \<Longrightarrow>
   clean_tag p =
     (case tag_state c of
        None \<Rightarrow> Inl (Croak ''Got invalid reply'')
      | Some st \<Rightarrow>
          Inr (p\<lparr>buffer := rest, state := st, mblk_level := (if c = CHR ''*'' then 1 else 0)\<rparr>))"
  by (simp add: clean_tag_def tag_state_def)

lemma wait_tag_table:
  "buffer p = c # rest \<Longrightarrow>
   wait_tag p =
     (case tag_state c of
        None \<Rightarrow> Inl (Croak ''Invalid multi-bulk reply. Expected [$:+-*] but got something else'')
      | Some st \<Rightarrow>
          Inr (if c = CHR ''*'' then
                 p\<lparr>buffer := rest, state := st, mblk_level := mblk_level p + 1,
                   mblk_store := (mblk_reply p, mblk_len p) # mblk_store p, mblk_reply := None\<rparr>
               else p\<lparr>buffer := rest, state := st\<rparr>))"
  by (simp add: wait_tag_def tag_state_def mblk_status_store_def)

text \<open>
  C7. A type tag is read in state \<open>RDBP_CLEAN\<close> at the entry of
  \<^verbatim>\<open>rdb_parser__parse_reply\<close> and in state \<open>RDBP_WAIT_BUCKS\<close> in its loop (there when two
  bytes at least are buffered). Exactly the first byte is taken off the buffer; the tags
  \<open>+ - : $ *\<close> lead to the states of the table and any other byte to a croak, at both
  places. In \<open>RDBP_WAIT_BUCKS\<close> the tag \<open>*\<close> also pushes the current frame on the stack and
  increments \<open>mblk_level\<close>; in \<open>RDBP_CLEAN\<close> it sets \<open>mblk_level\<close> to 1.
\<close>

theorem type_tag_dispatch:
  "(state p = RDBP_CLEAN \<and> buffer p = c # rest \<longrightarrow>
      rdb_parser__parse_reply U p =
        (case tag_state c of
           None \<Rightarrow> Inl (Croak ''Got invalid reply'')
         | Some st \<Rightarrow>
             parse_loop U
               (p\<lparr>buffer := rest, state := st,
                  mblk_level := (if c = CHR ''*'' then 1 else 0)\<rparr>))) \<and>
   (state p = RDBP_WAIT_BUCKS \<and> buffer p = c # rest \<and> rest \<noteq> [] \<longrightarrow>
      parse_step U p =
        (case tag_state c of
           None \<Rightarrow>
             Inl (Croak ''Invalid multi-bulk reply. Expected [$:+-*] but got something else'')
         | Some st \<Rightarrow>
             Inr (Again
               (if c = CHR ''*'' then
                  p\<lparr>buffer := rest, state := st, mblk_level := mblk_level p + 1,
                    mblk_store := (mblk_reply p, mblk_len p) # mblk_store p,
                    mblk_reply := None\<rparr>
                else p\<lparr>buffer := rest, state := st\<rparr>))))"
proof (intro conjI impI)
  assume "state p = RDBP_CLEAN \<and> buffer p = c # rest"
  then show "rdb_parser__parse_reply U p =
        (case tag_state c of
           None \<Rightarrow> Inl (Croak ''Got invalid reply'')
         | Some st \<Rightarrow>
             parse_loop U
               (p\<lparr>buffer := rest, state := st,
                  mblk_level := (if c = CHR ''*'' then 1 else 0)\<rparr>))"
    by (simp add: rdb_parser__parse_reply_def clean_tag_table split: option.splits)
next
  assume a: "state p = RDBP_WAIT_BUCKS \<and> buffer p = c # rest \<and> rest \<noteq> []"
  then have "\<not> length (buffer p) < 2" by (cases rest) auto
  with a show "parse_step U p =
        (case tag_state c of
           None \<Rightarrow>
             Inl (Croak ''Invalid multi-bulk reply. Expected [$:+-*] but got something else'')
         | Some st \<Rightarrow>
             Inr (Again
               (if c = CHR ''*'' then
                  p\<lparr>buffer := rest, state := st, mblk_level := mblk_level p + 1,
                    mblk_store := (mblk_reply p, mblk_len p) # mblk_store p,
                    mblk_reply := None\<rparr>
                else p\<lparr>buffer := rest, state := st\<rparr>)))"
    by (simp add: parse_step_def wait_tag_table [of p c rest] split: option.splits)
qed

lemma parse_loop_short_buffer:
  "length (buffer p) < 2 \<Longrightarrow> parse_loop U p = Inr (0, p, [])"
  by (simp add: parse_loop.simps [of U p] parse_step_def)

theorem type_tag_dispatch_witness:
  "rdb_parser__parse_reply (\<lambda>s. True) ((rdb_parser__init None 0 7 0 0)\<lparr>buffer := ''*''\<rparr>) =
     Inr (0, (rdb_parser__init None 0 7 0 0)
               \<lparr>buffer := [], state := RDBP_READ_MBLK_LEN, mblk_level := 1\<rparr>, []) \<and>
   rdb_parser__parse_reply (\<lambda>s. True) ((rdb_parser__init None 0 7 0 0)\<lparr>buffer := ''?''\<rparr>) =
     Inl (Croak ''Got invalid reply'') \<and>
   parse_step (\<lambda>s. True)
     ((rdb_parser__init None 0 7 0 0)
        \<lparr>buffer := ''*2'', state := RDBP_WAIT_BUCKS, mblk_level := 1,
          mblk_reply := Some [IV 1], mblk_len := 2\<rparr>) =
     Inr (Again ((rdb_parser__init None 0 7 0 0)
        \<lparr>buffer := ''2'', state := RDBP_READ_MBLK_LEN, mblk_level := 2,
          mblk_reply := None, mblk_len := 2, mblk_store := [(Some [IV 1], 2)]\<rparr>))"
proof -
  let ?U = "\<lambda>s::bytes. True"
  let ?p = "rdb_parser__init None 0 7 0 0"
  have a: "rdb_parser__parse_reply ?U (?p\<lparr>buffer := ''*''\<rparr>) =
     Inr (0, ?p\<lparr>buffer := [], state := RDBP_READ_MBLK_LEN, mblk_level := 1\<rparr>, [])"
    using type_tag_dispatch [of "?p\<lparr>buffer := ''*''\<rparr>" "CHR ''*''" "[]" ?U]
    by (simp add: rdb_parser__init_def tag_state_def parse_loop_short_buffer)
  have b: "rdb_parser__parse_reply ?U (?p\<lparr>buffer := ''?''\<rparr>) = Inl (Croak ''Got invalid reply'')"
    using type_tag_dispatch [of "?p\<lparr>buffer := ''?''\<rparr>" "CHR ''?''" "[]" ?U]
    by (simp add: rdb_parser__init_def tag_state_def)
  have c: "parse_step ?U
     (?p\<lparr>buffer := ''*2'', state := RDBP_WAIT_BUCKS, mblk_level := 1,
          mblk_reply := Some [IV 1], mblk_len := 2\<rparr>) =
     Inr (Again (?p
        \<lparr>buffer := ''2'', state := RDBP_READ_MBLK_LEN, mblk_level := 2,
          mblk_reply := None, mblk_len := 2, mblk_store := [(Some [IV 1], 2)]\<rparr>))"
    using type_tag_dispatch [of "?p\<lparr>buffer := ''*2'', state := RDBP_WAIT_BUCKS, mblk_level := 1,
          mblk_reply := Some [IV 1], mblk_len := 2\<rparr>" "CHR ''*''" "''2''" ?U]
    by (simp add: rdb_parser__init_def tag_state_def)
  from a b c show ?thesis by simp
qed

section \<open>Bulk replies\<close>

text \<open>The equations that run the parser on a given buffer.\<close>

lemmas run_simps = rdb_parser__parse_reply_def clean_tag_def parse_loop.simps parse_step_def
  read_line_first_crlf read_number_first_crlf read_length_first_crlf atol_cstring cstring_def
  atol_def isspace_def signed_digits_def isdigit_def digits_value_def digit_val_def
  LONG_MAX_def LONG_MIN_def completed_def reply_completed_def invoke_cb_def mblk_item.simps
  mblk_status_fetch_def wait_tag_def mblk_status_store_def Let_def rdb_parser__init_def
  create_rdb_error_def sv_utf8_decode_def

lemma step_read_bulk:
  assumes "state p = RDBP_READ_BULK" "buffer p = payload @ t1 # t2 # rest"
    "length payload = bulk_len p"
  shows "parse_step U p =
     (if utf8 p \<noteq> 0 then
        (if U payload then
           completed (reply_completed (p\<lparr>buffer := rest\<rparr>)
             (PV payload (list_ex (\<lambda>c. 128 \<le> (of_char c :: nat)) payload)))
         else Inl (Croak ''Received invalid UTF-8 string from the server''))
      else completed (reply_completed (p\<lparr>buffer := rest\<rparr>) (PV payload False)))"
  using assms by (simp add: parse_step_def Let_def sv_utf8_decode_def)

lemma step_read_bulk_short:
  assumes "state p = RDBP_READ_BULK" "length (buffer p) < bulk_len p + 2"
  shows "parse_step U p = Inr (Return 0 p [])"
  using assms by (simp add: parse_step_def)

lemma show_nat_crlf_length: "\<not> length (show_nat n @ CRLF @ rest) < 2"
  by simp

lemma step_read_bulk_len:
  assumes "state p = RDBP_READ_BULK_LEN" "buffer p = show_nat n @ CRLF @ rest" "int n \<le> LONG_MAX"
  shows "parse_step U p = Inr (Again (p\<lparr>buffer := rest, state := RDBP_READ_BULK, bulk_len := n\<rparr>))"
  using assms by (simp add: parse_step_def read_length_show_nat)

lemma step_read_bulk_nil:
  assumes "state p = RDBP_READ_BULK_LEN" "buffer p = ''-1'' @ CRLF @ rest"
  shows "parse_step U p = completed (reply_completed (p\<lparr>buffer := rest\<rparr>) Undef)"
  using assms read_length_minus_one [of rest] by (simp add: parse_step_def)

text \<open>
  C3, as amended. In state \<open>RDBP_READ_BULK_LEN\<close> a length \<open>n \<ge> 0\<close> leads to state \<open>RDBP_READ_BULK\<close>
  with \<open>bulk_len = n\<close>, and the length -1 completes the reply with the nil value. In state
  \<open>RDBP_READ_BULK\<close>, with fewer than \<open>bulk_len + 2\<close> bytes buffered
  \<^verbatim>\<open>rdb_parser__parse_reply\<close> returns 0 and the parser is as it was; otherwise the value is
  the first \<open>bulk_len\<close> bytes, whatever they are, and \<open>bulk_len + 2\<close> bytes are taken off
  the buffer. With \<open>utf8\<close> set, a payload that is not valid UTF-8 is a croak.
\<close>

theorem bulk_reply:
  "(state p = RDBP_READ_BULK_LEN \<and> buffer p = show_nat n @ CRLF @ rest \<and> int n \<le> LONG_MAX \<longrightarrow>
      parse_step U p =
        Inr (Again (p\<lparr>buffer := rest, state := RDBP_READ_BULK, bulk_len := n\<rparr>))) \<and>
   (state p = RDBP_READ_BULK_LEN \<and> buffer p = ''-1'' @ CRLF @ rest \<longrightarrow>
      parse_step U p = completed (reply_completed (p\<lparr>buffer := rest\<rparr>) Undef)) \<and>
   (state p = RDBP_READ_BULK \<and> length (buffer p) < bulk_len p + 2 \<longrightarrow>
      rdb_parser__parse_reply U p = Inr (0, p, [])) \<and>
   (state p = RDBP_READ_BULK \<and> buffer p = payload @ t1 # t2 # rest \<and>
    length payload = bulk_len p \<longrightarrow>
      parse_step U p =
        (if utf8 p \<noteq> 0 then
           (if U payload then
              completed (reply_completed (p\<lparr>buffer := rest\<rparr>)
                (PV payload (list_ex (\<lambda>c. 128 \<le> (of_char c :: nat)) payload)))
            else Inl (Croak ''Received invalid UTF-8 string from the server''))
         else completed (reply_completed (p\<lparr>buffer := rest\<rparr>) (PV payload False))))"
proof (intro conjI impI)
  assume "state p = RDBP_READ_BULK_LEN \<and> buffer p = show_nat n @ CRLF @ rest \<and> int n \<le> LONG_MAX"
  then show "parse_step U p =
        Inr (Again (p\<lparr>buffer := rest, state := RDBP_READ_BULK, bulk_len := n\<rparr>))"
    by (intro step_read_bulk_len) simp_all
next
  assume "state p = RDBP_READ_BULK_LEN \<and> buffer p = ''-1'' @ CRLF @ rest"
  then show "parse_step U p = completed (reply_completed (p\<lparr>buffer := rest\<rparr>) Undef)"
    by (intro step_read_bulk_nil) simp_all
next
  assume a: "state p = RDBP_READ_BULK \<and> length (buffer p) < bulk_len p + 2"
  then have "parse_loop U p = Inr (0, p, [])"
    by (simp add: parse_loop.simps [of U p] step_read_bulk_short)
  with a show "rdb_parser__parse_reply U p = Inr (0, p, [])"
    by (simp add: rdb_parser__parse_reply_def)
next
  assume "state p = RDBP_READ_BULK \<and> buffer p = payload @ t1 # t2 # rest \<and>
    length payload = bulk_len p"
  then show "parse_step U p =
        (if utf8 p \<noteq> 0 then
           (if U payload then
              completed (reply_completed (p\<lparr>buffer := rest\<rparr>)
                (PV payload (list_ex (\<lambda>c. 128 \<le> (of_char c :: nat)) payload)))
            else Inl (Croak ''Received invalid UTF-8 string from the server''))
         else completed (reply_completed (p\<lparr>buffer := rest\<rparr>) (PV payload False)))"
    by (intro step_read_bulk) simp_all
qed


theorem bulk_reply_witness:
  "parse_step (\<lambda>s. True)
     ((rdb_parser__init None 0 0 0 0)
        \<lparr>callbacks := [1], state := RDBP_READ_BULK_LEN, buffer := show_nat 5 @ CRLF @ ''a''\<rparr>) =
     Inr (Again ((rdb_parser__init None 0 0 0 0)
        \<lparr>callbacks := [1], state := RDBP_READ_BULK, buffer := ''a'', bulk_len := 5\<rparr>)) \<and>
   parse_step (\<lambda>s. True)
     ((rdb_parser__init None 0 0 0 0)
        \<lparr>callbacks := [1], state := RDBP_READ_BULK_LEN, buffer := ''-1'' @ CRLF\<rparr>) =
     Inr (Return 1 ((rdb_parser__init None 0 0 0 0)\<lparr>callbacks := []\<rparr>) [(1, None, Undef)]) \<and>
   rdb_parser__parse_reply (\<lambda>s. True)
     ((rdb_parser__init None 0 0 0 0)
        \<lparr>callbacks := [1], state := RDBP_READ_BULK, buffer := ''a'' @ CRLF @ ''b'', bulk_len := 5\<rparr>) =
     Inr (0, (rdb_parser__init None 0 0 0 0)
        \<lparr>callbacks := [1], state := RDBP_READ_BULK, buffer := ''a'' @ CRLF @ ''b'', bulk_len := 5\<rparr>,
        []) \<and>
   parse_step (\<lambda>s. True)
     ((rdb_parser__init None 0 0 0 0)
        \<lparr>callbacks := [1], state := RDBP_READ_BULK, buffer := ''a'' @ CRLF @ ''b'' @ CRLF @ ''+'',
          bulk_len := 4\<rparr>) =
     Inr (Return 1 ((rdb_parser__init None 0 0 0 0)
            \<lparr>callbacks := [], buffer := ''+'', bulk_len := 4\<rparr>)
          [(1, None, PV (''a'' @ CRLF @ ''b'') False)]) \<and>
   parse_step (\<lambda>s. False)
     ((rdb_parser__init None 1 0 0 0)
        \<lparr>callbacks := [1], state := RDBP_READ_BULK, buffer := ''a'' @ CRLF @ ''b'' @ CRLF @ ''+'',
          bulk_len := 4\<rparr>) =
     Inl (Croak ''Received invalid UTF-8 string from the server'')"
proof -
  let ?T = "\<lambda>s::bytes. True"
  let ?i = "rdb_parser__init None 0 0 0 0"
  have a: "parse_step ?T
     (?i\<lparr>callbacks := [1], state := RDBP_READ_BULK_LEN, buffer := show_nat 5 @ CRLF @ ''a''\<rparr>) =
     Inr (Again (?i\<lparr>callbacks := [1], state := RDBP_READ_BULK, buffer := ''a'', bulk_len := 5\<rparr>))"
    using bulk_reply [of "?i\<lparr>callbacks := [1], state := RDBP_READ_BULK_LEN,
                              buffer := show_nat 5 @ CRLF @ ''a''\<rparr>" 5 "''a''" ?T]
    by (simp add: rdb_parser__init_def LONG_MAX_def)
  have b: "parse_step ?T
     (?i\<lparr>callbacks := [1], state := RDBP_READ_BULK_LEN, buffer := ''-1'' @ CRLF\<rparr>) =
     Inr (Return 1 (?i\<lparr>callbacks := []\<rparr>) [(1, None, Undef)])"
    using bulk_reply [of "?i\<lparr>callbacks := [1], state := RDBP_READ_BULK_LEN,
                              buffer := ''-1'' @ CRLF\<rparr>" _ "[]" ?T]
    by (simp add: rdb_parser__init_def completed_def reply_completed_def invoke_cb_def)
  have c: "rdb_parser__parse_reply ?T
     (?i\<lparr>callbacks := [1], state := RDBP_READ_BULK, buffer := ''a'' @ CRLF @ ''b'', bulk_len := 5\<rparr>) =
     Inr (0, ?i\<lparr>callbacks := [1], state := RDBP_READ_BULK, buffer := ''a'' @ CRLF @ ''b'',
                 bulk_len := 5\<rparr>, [])"
    using bulk_reply [of "?i\<lparr>callbacks := [1], state := RDBP_READ_BULK,
                              buffer := ''a'' @ CRLF @ ''b'', bulk_len := 5\<rparr>" _ _ ?T]
    by (simp add: rdb_parser__init_def)
  have d: "parse_step ?T
     (?i\<lparr>callbacks := [1], state := RDBP_READ_BULK, buffer := ''a'' @ CRLF @ ''b'' @ CRLF @ ''+'',
          bulk_len := 4\<rparr>) =
     Inr (Return 1 (?i\<lparr>callbacks := [], buffer := ''+'', bulk_len := 4\<rparr>)
          [(1, None, PV (''a'' @ CRLF @ ''b'') False)])"
    using bulk_reply [of "?i\<lparr>callbacks := [1], state := RDBP_READ_BULK,
                              buffer := ''a'' @ CRLF @ ''b'' @ CRLF @ ''+'', bulk_len := 4\<rparr>"
                         _ "''+''" ?T "''a'' @ CRLF @ ''b''" CR LF]
    by (simp add: rdb_parser__init_def completed_def reply_completed_def invoke_cb_def)
  have e: "parse_step (\<lambda>s. False)
     ((rdb_parser__init None 1 0 0 0)
        \<lparr>callbacks := [1], state := RDBP_READ_BULK, buffer := ''a'' @ CRLF @ ''b'' @ CRLF @ ''+'',
          bulk_len := 4\<rparr>) =
     Inl (Croak ''Received invalid UTF-8 string from the server'')"
    using bulk_reply [of "(rdb_parser__init None 1 0 0 0)\<lparr>callbacks := [1], state := RDBP_READ_BULK,
                              buffer := ''a'' @ CRLF @ ''b'' @ CRLF @ ''+'', bulk_len := 4\<rparr>"
                         _ "''+''" "\<lambda>s. False" "''a'' @ CRLF @ ''b''" CR LF]
    by (simp add: rdb_parser__init_def)
  from a b c d e show ?thesis by blast
qed


text \<open>
  The example of the claim has the wrong length: the payload \<open>a CRLF b\<close> is four bytes.
  With the length 5 the parser needs seven bytes after the header, finds six, and returns
  0 with nothing delivered.
\<close>

theorem bulk_example_length_five:
  "rdb_parser__parse_reply (\<lambda>s. True)
     ((rdb_parser__init None 0 0 0 0)
        \<lparr>callbacks := [1], buffer := ''$5'' @ CRLF @ ''a'' @ CRLF @ ''b'' @ CRLF\<rparr>) =
   Inr (0, (rdb_parser__init None 0 0 0 0)
             \<lparr>callbacks := [1], buffer := ''a'' @ CRLF @ ''b'' @ CRLF,
               state := RDBP_READ_BULK, bulk_len := 5\<rparr>, [])"
  by (simp add: run_simps)

text \<open>With the length 4 the reply is delivered, and the CRLF inside the payload is kept.\<close>

lemma bulk_example_length_four:
  "rdb_parser__parse_reply (\<lambda>s. True)
     ((rdb_parser__init None 0 0 0 0)
        \<lparr>callbacks := [1], buffer := ''$4'' @ CRLF @ ''a'' @ CRLF @ ''b'' @ CRLF\<rparr>) =
   Inr (1, (rdb_parser__init None 0 0 0 0)
             \<lparr>callbacks := [], buffer := [], state := RDBP_CLEAN, bulk_len := 4\<rparr>,
        [(1, None, PV (''a'' @ CRLF @ ''b'') False)])"
  by (simp add: run_simps)

section \<open>Multi-bulk headers\<close>

lemma atol_zero: "atol ''0'' = 0"
  by (simp add: atol_def isspace_def signed_digits_def isdigit_def digits_value_def
        digit_val_def LONG_MAX_def)

lemma read_length_zero: "read_length (''0'' @ CR # LF # rest) = Inr (0, rest)"
  using read_length_line [of "''0''" rest] by (simp add: atol_zero)

lemma step_read_mblk_len:
  assumes "state p = RDBP_READ_MBLK_LEN" "buffer p = show_nat n @ CRLF @ rest"
    "0 < n" "int n \<le> LONG_MAX"
  shows "parse_step U p =
     Inr (Again (p\<lparr>buffer := rest, mblk_len := n, state := RDBP_WAIT_BUCKS,
                    mblk_reply := Some []\<rparr>))"
  using assms by (simp add: parse_step_def read_length_show_nat)

lemma step_read_mblk_empty:
  assumes "state p = RDBP_READ_MBLK_LEN" "buffer p = line @ CRLF @ rest"
    "line = ''0'' \<or> line = ''-1''"
  shows "parse_step U p =
     (if mblk_level p - 1 > 0 then
        (case mblk_store p of
           [] \<Rightarrow> Inl (Croak ''Already at the upper level of multi-bulk reply'')
         | (r, l) # next \<Rightarrow>
             completed (reply_completed
               (p\<lparr>buffer := rest, mblk_level := mblk_level p - 1, mblk_len := l,
                  mblk_reply := r, mblk_store := next\<rparr>)
               (if line = ''0'' then AVref [] else Undef)))
      else completed (reply_completed (p\<lparr>buffer := rest, mblk_level := mblk_level p - 1\<rparr>)
             (if line = ''0'' then AVref [] else Undef)))"
proof -
  from assms(3) show ?thesis
  proof
    assume "line = ''0''"
    with assms(1,2) read_length_zero [of rest] show ?thesis
      by (simp add: parse_step_def mblk_status_fetch_def split: list.splits)
  next
    assume "line = ''-1''"
    with assms(1,2) read_length_minus_one [of rest] show ?thesis
      by (simp add: parse_step_def mblk_status_fetch_def split: list.splits)
  qed
qed



section \<open>Frames and invariants\<close>

text \<open>One unfolding of \<^verbatim>\<open>_mblk_item\<close>, with the frame taken off the stack written out.\<close>

lemma mblk_item_unfold:
  "mblk_item p item =
     (case mblk_reply p of
        None \<Rightarrow> Inl (Fault ''av_push on a NULL array'')
      | Some av \<Rightarrow>
          if 1 < mblk_len p then
            Inr (1, p\<lparr>mblk_reply := Some (av @ [item]), mblk_len := mblk_len p - 1,
                      state := RDBP_WAIT_BUCKS\<rparr>)
          else if 1 < mblk_level p then
            (case mblk_store p of
               [] \<Rightarrow> Inl (Croak ''Already at the upper level of multi-bulk reply'')
             | (r, l) # next \<Rightarrow>
                 mblk_item (p\<lparr>mblk_level := mblk_level p - 1, mblk_len := l, mblk_reply := r,
                              mblk_store := next\<rparr>) (AVref (av @ [item])))
          else Inr (0, p\<lparr>mblk_reply := Some (av @ [item])\<rparr>))"
  by (subst mblk_item.simps)
     (simp add: Let_def mblk_status_fetch_def split: option.splits list.splits)



text \<open>What an iteration of the loop can do, whatever the bytes are.\<close>

lemma parse_step_cases [consumes 1, case_names blocked badlen bulk array tag scalar nested_end top_end]:
  assumes "parse_step U p = Inr s"
  obtains
    (blocked) "s = Return 0 p []"
  | (badlen) b where "s = Return 0 (p\<lparr>buffer := b\<rparr>) []"
  | (bulk) b n where "state p = RDBP_READ_BULK_LEN"
      "s = Again (p\<lparr>buffer := b, state := RDBP_READ_BULK, bulk_len := n\<rparr>)"
  | (array) b n where "state p = RDBP_READ_MBLK_LEN" "0 < n"
      "s = Again (p\<lparr>buffer := b, mblk_len := n, state := RDBP_WAIT_BUCKS, mblk_reply := Some []\<rparr>)"
  | (tag) p1 where "state p = RDBP_WAIT_BUCKS" "wait_tag p = Inr p1" "s = Again p1"
  | (scalar) b item where
      "state p \<noteq> RDBP_CLEAN" "state p \<noteq> RDBP_READ_MBLK_LEN" "state p \<noteq> RDBP_WAIT_BUCKS"
      "completed (reply_completed (p\<lparr>buffer := b\<rparr>) item) = Inr s"
  | (nested_end) b item r l nxt where "state p = RDBP_READ_MBLK_LEN" "mblk_level p - 1 > 0"
      "mblk_store p = (r, l) # nxt"
      "completed (reply_completed
         (p\<lparr>buffer := b, mblk_level := mblk_level p - 1, mblk_len := l, mblk_reply := r,
            mblk_store := nxt\<rparr>) item) = Inr s"
  | (top_end) b item where "state p = RDBP_READ_MBLK_LEN" "\<not> mblk_level p - 1 > 0"
      "completed (reply_completed (p\<lparr>buffer := b, mblk_level := mblk_level p - 1\<rparr>) item) = Inr s"
proof (cases "length (buffer p) < 2")
  case True
  with assms blocked show ?thesis by (simp add: parse_step_def)
next
  case False
  show ?thesis
  proof (cases "state p")
    case RDBP_CLEAN
    with assms False show ?thesis by (simp add: parse_step_def)
  next
    case RDBP_READ_LINE
    show ?thesis
    proof (cases "read_line (buffer p)")
      case (Inl e)
      with assms False RDBP_READ_LINE show ?thesis by (simp add: parse_step_def)
    next
      case (Inr x)
      show ?thesis
      proof (cases x)
        case None
        with Inr assms False RDBP_READ_LINE have "s = Return 0 p []" by (simp add: parse_step_def)
        then show ?thesis by (rule blocked)
      next
        case (Some lb)
        obtain line b where lb: "lb = (line, b)" by (cases lb)
        with Some Inr assms False RDBP_READ_LINE
        have "completed (reply_completed (p\<lparr>buffer := b\<rparr>) (line)) = Inr s"
          by (simp add: parse_step_def)
        with RDBP_READ_LINE show ?thesis by (intro scalar [where b = b and item = "line"]) simp_all
      qed
    qed
  next
    case RDBP_READ_ERROR
    show ?thesis
    proof (cases "read_line (buffer p)")
      case (Inl e)
      with assms False RDBP_READ_ERROR show ?thesis by (simp add: parse_step_def)
    next
      case (Inr x)
      show ?thesis
      proof (cases x)
        case None
        with Inr assms False RDBP_READ_ERROR have "s = Return 0 p []" by (simp add: parse_step_def)
        then show ?thesis by (rule blocked)
      next
        case (Some lb)
        obtain line b where lb: "lb = (line, b)" by (cases lb)
        with Some Inr assms False RDBP_READ_ERROR
        have "completed (reply_completed (p\<lparr>buffer := b\<rparr>) (create_rdb_error line)) = Inr s"
          by (simp add: parse_step_def)
        with RDBP_READ_ERROR show ?thesis by (intro scalar [where b = b and item = "create_rdb_error line"]) simp_all
      qed
    qed
  next
    case RDBP_READ_NUMBER
    show ?thesis
    proof (cases "read_number (buffer p)")
      case (Inl e)
      with assms False RDBP_READ_NUMBER show ?thesis by (simp add: parse_step_def)
    next
      case (Inr x)
      show ?thesis
      proof (cases x)
        case None
        with Inr assms False RDBP_READ_NUMBER have "s = Return 0 p []" by (simp add: parse_step_def)
        then show ?thesis by (rule blocked)
      next
        case (Some lb)
        obtain line b where lb: "lb = (line, b)" by (cases lb)
        with Some Inr assms False RDBP_READ_NUMBER
        have "completed (reply_completed (p\<lparr>buffer := b\<rparr>) (line)) = Inr s"
          by (simp add: parse_step_def)
        with RDBP_READ_NUMBER show ?thesis by (intro scalar [where b = b and item = "line"]) simp_all
      qed
    qed
  next
    case RDBP_READ_BULK_LEN
    show ?thesis
    proof (cases "read_length (buffer p)")
      case (Inl e)
      with assms False RDBP_READ_BULK_LEN show ?thesis by (simp add: parse_step_def)
    next
      case (Inr x)
      obtain len b where x: "x = (len, b)" by (cases x)
      consider "len \<ge> 0" | "len = - 1" | "len < - 1" by linarith
      then show ?thesis
      proof cases
        case 1
        with Inr x assms False RDBP_READ_BULK_LEN
        have "s = Again (p\<lparr>buffer := b, state := RDBP_READ_BULK, bulk_len := nat len\<rparr>)"
          by (simp add: parse_step_def)
        with RDBP_READ_BULK_LEN show ?thesis by (intro bulk [where b = b and n = "nat len"]) simp_all
      next
        case 2
        with Inr x assms False RDBP_READ_BULK_LEN
        have "completed (reply_completed (p\<lparr>buffer := b\<rparr>) Undef) = Inr s"
          by (simp add: parse_step_def)
        with RDBP_READ_BULK_LEN show ?thesis by (intro scalar [where b = b and item = Undef]) simp_all
      next
        case 3
        with Inr x assms False RDBP_READ_BULK_LEN
        have "s = Return 0 (p\<lparr>buffer := b\<rparr>) []" by (simp add: parse_step_def)
        then show ?thesis by (rule badlen)
      qed
    qed
  next
    case RDBP_READ_BULK
    show ?thesis
    proof (cases "length (buffer p) < 2 + bulk_len p")
      case True
      with assms False RDBP_READ_BULK have "s = Return 0 p []" by (simp add: parse_step_def)
      then show ?thesis by (rule blocked)
    next
      case enough: False
      let ?b = "drop (bulk_len p + 2) (buffer p)"
      let ?bulk = "take (bulk_len p) (buffer p)"
      show ?thesis
      proof (cases "utf8 p = 0")
        case True
        with enough assms False RDBP_READ_BULK
        have "completed (reply_completed (p\<lparr>buffer := ?b\<rparr>) (PV ?bulk False)) = Inr s"
          by (simp add: parse_step_def Let_def)
        with RDBP_READ_BULK show ?thesis by (intro scalar [where b = "?b" and item = "PV ?bulk False"]) simp_all
      next
        case u: False
        show ?thesis
        proof (cases "sv_utf8_decode U ?bulk")
          case None
          with u enough assms False RDBP_READ_BULK show ?thesis
            by (simp add: parse_step_def Let_def)
        next
          case (Some v)
          with u enough assms False RDBP_READ_BULK
          have "completed (reply_completed (p\<lparr>buffer := ?b\<rparr>) v) = Inr s"
            by (simp add: parse_step_def Let_def)
          with RDBP_READ_BULK show ?thesis by (intro scalar [where b = "?b" and item = v]) simp_all
        qed
      qed
    qed
  next
    case RDBP_READ_MBLK_LEN
    show ?thesis
    proof (cases "read_length (buffer p)")
      case (Inl e)
      with assms False RDBP_READ_MBLK_LEN show ?thesis by (simp add: parse_step_def)
    next
      case (Inr x)
      obtain len b where x: "x = (len, b)" by (cases x)
      consider "len > 0" | "len = 0 \<or> len = - 1" | "len < - 1" by linarith
      then show ?thesis
      proof cases
        case 1
        with Inr x assms False RDBP_READ_MBLK_LEN
        have "s = Again (p\<lparr>buffer := b, mblk_len := nat len, state := RDBP_WAIT_BUCKS,
                          mblk_reply := Some []\<rparr>)"
          by (simp add: parse_step_def)
        with 1 RDBP_READ_MBLK_LEN show ?thesis by (intro array [where b = b and n = "nat len"]) simp_all
      next
        case 3
        with Inr x assms False RDBP_READ_MBLK_LEN
        have "s = Return 0 (p\<lparr>buffer := b\<rparr>) []" by (simp add: parse_step_def)
        then show ?thesis by (rule badlen)
      next
        case 2
        show ?thesis
        proof (cases "mblk_level p - 1 > 0")
          case lv: False
          with 2 Inr x assms False RDBP_READ_MBLK_LEN
          have "completed (reply_completed (p\<lparr>buffer := b, mblk_level := mblk_level p - 1\<rparr>)
                  (if len = 0 then AVref [] else Undef)) = Inr s"
            by (auto simp: parse_step_def)
          with lv RDBP_READ_MBLK_LEN show ?thesis
            by (intro top_end [where b = b and item = "if len = 0 then AVref [] else Undef"]) simp_all
        next
          case True
          show ?thesis
          proof (cases "mblk_store p")
            case Nil
            with True 2 Inr x assms False RDBP_READ_MBLK_LEN show ?thesis
              by (auto simp: parse_step_def mblk_status_fetch_def)
          next
            case (Cons f nxt)
            obtain r l where f: "f = (r, l)" by (cases f)
            with Cons True 2 Inr x assms False RDBP_READ_MBLK_LEN
            have "completed (reply_completed
                   (p\<lparr>buffer := b, mblk_level := mblk_level p - 1, mblk_len := l, mblk_reply := r,
                      mblk_store := nxt\<rparr>) (if len = 0 then AVref [] else Undef)) = Inr s"
              by (auto simp: parse_step_def mblk_status_fetch_def)
            with f Cons True RDBP_READ_MBLK_LEN show ?thesis
              by (intro nested_end [where b = b and r = r and l = l and nxt = nxt and item = "if len = 0 then AVref [] else Undef"]) simp_all
          qed
        qed
      qed
    qed
  next
    case RDBP_WAIT_BUCKS
    with assms False obtain p1 where "wait_tag p = Inr p1" "s = Again p1"
      by (cases "wait_tag p") (simp_all add: parse_step_def)
    with RDBP_WAIT_BUCKS show ?thesis by (intro tag [where ?p1.0 = p1]) simp_all
  qed
qed

section \<open>Callbacks\<close>

text \<open>
  \<open>same_env p p'\<close>: the fields no parser function writes. \<open>delivered_to p p' cs\<close>: the
  calls \<open>cs\<close> are one call, with the client handle, of the head of the queue of \<open>p\<close>,
  which \<open>p'\<close> has lost, or else of the default callback.
\<close>

definition same_env :: "rdb_parser \<Rightarrow> rdb_parser \<Rightarrow> bool" where
  "same_env p p' = (default_cb p' = default_cb p \<and> redisdb p' = redisdb p \<and> utf8 p' = utf8 p)"

definition delivered_to :: "rdb_parser \<Rightarrow> rdb_parser \<Rightarrow> call list \<Rightarrow> bool" where
  "delivered_to p p' cs =
     (case callbacks p of
        c # rest \<Rightarrow> callbacks p' = rest \<and> map (\<lambda>(c, h, v). (c, h)) cs = [(c, redisdb p)]
      | [] \<Rightarrow>
          callbacks p' = [] \<and>
          (case default_cb p of
             Some c \<Rightarrow> map (\<lambda>(c, h, v). (c, h)) cs = [(c, redisdb p)]
           | None \<Rightarrow> False))"

lemma invoke_cb_calls:
  "invoke_cb p v = Inr (r, p', cs) \<Longrightarrow> r = 1 \<and> same_env p p' \<and> delivered_to p p' cs"
  by (auto simp: invoke_cb_def Let_def same_env_def delivered_to_def
           split: list.splits option.splits)

















section \<open>The invariant of the parser\<close>

text \<open>
  \<open>frame_ok\<close>: inside a multi-bulk reply the level is one more than the depth of the
  stack, the current array exists and so does the array of every saved frame.
  \<open>wf_parser\<close>: in state \<open>RDBP_CLEAN\<close> no frame is held; while a length of a multi-bulk
  reply is read the current array does not exist yet; while a value is read the
  parser is at the top level with no frame, or inside a frame.
\<close>

definition frame_ok :: "rdb_parser \<Rightarrow> bool" where
  "frame_ok p =
     (mblk_level p \<ge> 1 \<and> int (length (mblk_store p)) + 1 = mblk_level p \<and>
      mblk_reply p \<noteq> None \<and> list_all (\<lambda>f. fst f \<noteq> None) (mblk_store p))"

definition no_frame :: "rdb_parser \<Rightarrow> bool" where
  "no_frame p = (mblk_reply p = None \<and> mblk_store p = [])"

definition wf_parser :: "rdb_parser \<Rightarrow> bool" where
  "wf_parser p =
     (if state p = RDBP_CLEAN then no_frame p
      else if state p = RDBP_READ_MBLK_LEN then
        mblk_level p \<ge> 1 \<and> int (length (mblk_store p)) + 1 = mblk_level p \<and>
        mblk_reply p = None \<and> list_all (\<lambda>f. fst f \<noteq> None) (mblk_store p)
      else if state p = RDBP_WAIT_BUCKS then frame_ok p
      else (mblk_level p = 0 \<and> no_frame p) \<or> frame_ok p)"

lemma mblk_item_wf:
  "frame_ok p \<Longrightarrow> mblk_item p item = Inr (r, p') \<Longrightarrow>
     (if r = 0 then mblk_level p' = 1 \<and> mblk_store p' = [] \<and> mblk_reply p' \<noteq> None
      else state p' = RDBP_WAIT_BUCKS \<and> frame_ok p')"
proof (induction "length (mblk_store p)" arbitrary: p item)
  case 0
  from "0.prems"(2) show ?case using "0.hyps" "0.prems"(1)
    by (subst (asm) mblk_item_unfold)
       (auto simp: frame_ok_def split: option.splits if_splits)
next
  case (Suc k)
  from Suc.prems(1) obtain av where av: "mblk_reply p = Some av" by (auto simp: frame_ok_def)
  from Suc.hyps(2) obtain rr l nxt where st: "mblk_store p = (rr, l) # nxt"
    by (cases "mblk_store p") auto
  from Suc.prems(1) st have lv: "1 < mblk_level p" by (simp add: frame_ok_def)
  show ?case
  proof (cases "1 < mblk_len p")
    case True
    from Suc.prems(2) show ?thesis using True Suc.prems(1) av
      by (subst (asm) mblk_item_unfold) (auto simp: frame_ok_def)
  next
    case False
    let ?q = "p\<lparr>mblk_level := mblk_level p - 1, mblk_len := l, mblk_reply := rr, mblk_store := nxt\<rparr>"
    from Suc.prems(2) False av lv st
    have m: "mblk_item ?q (AVref (av @ [item])) = Inr (r, p')"
      by (subst (asm) mblk_item_unfold) simp
    have "frame_ok ?q" using Suc.prems(1) st by (auto simp: frame_ok_def)
    moreover have "k = length (mblk_store ?q)" using Suc.hyps(2) st by simp
    ultimately show ?thesis using Suc.hyps(1) [of ?q "AVref (av @ [item])"] m by blast
  qed
qed

lemma invoke_cb_wf:
  "invoke_cb p v = Inr (r, p', cs) \<Longrightarrow>
     state p' = RDBP_CLEAN \<and> mblk_level p' = mblk_level p \<and> mblk_reply p' = mblk_reply p \<and>
     mblk_store p' = mblk_store p"
  by (auto simp: invoke_cb_def Let_def split: list.splits option.splits)

lemma reply_completed_wf:
  assumes "(mblk_level p = 0 \<and> no_frame p) \<or> frame_ok p"
    and "reply_completed p item = Inr (r, p', cs)"
  shows "if r = 0 then state p' = RDBP_WAIT_BUCKS \<and> frame_ok p'
         else state p' = RDBP_CLEAN \<and> no_frame p' \<and> (mblk_level p' = 0 \<or> mblk_level p' = 1)"
proof (cases "mblk_level p = 0")
  case True
  with assms(1) have nf: "no_frame p" by (auto simp: frame_ok_def)
  from True assms(2) have i: "invoke_cb p item = Inr (r, p', cs)"
    by (simp add: reply_completed_def)
  from invoke_cb_calls [OF i] invoke_cb_wf [OF i] nf True show ?thesis
    by (simp add: no_frame_def)
next
  case False
  with assms(1) have fo: "frame_ok p" by simp
  from False assms(2) obtain rp p1 where m: "mblk_item p item = Inr (rp, p1)"
    by (auto simp: reply_completed_def split: sum.splits)
  note w = mblk_item_wf [OF fo m]
  show ?thesis
  proof (cases "rp = 0")
    case nz: False
    with assms(2) m False w show ?thesis by (simp add: reply_completed_def)
  next
    case True
    with assms(2) m False obtain av where
      i: "invoke_cb (p1\<lparr>mblk_reply := None\<rparr>) (AVref av) = Inr (r, p', cs)"
      by (auto simp: reply_completed_def split: option.splits)
    from invoke_cb_calls [OF i] invoke_cb_wf [OF i] w True show ?thesis
      by (simp add: no_frame_def)
  qed
qed

lemma completed_wf:
  assumes "(mblk_level q = 0 \<and> no_frame q) \<or> frame_ok q"
    and "completed (reply_completed q item) = Inr s"
  shows "case s of Again p' \<Rightarrow> wf_parser p' \<and> state p' \<noteq> RDBP_CLEAN
         | Return r p' cs \<Rightarrow>
             r = 1 \<and> state p' = RDBP_CLEAN \<and> no_frame p' \<and>
             (mblk_level p' = 0 \<or> mblk_level p' = 1)"
proof -
  from assms(2) obtain r p' cs where rc: "reply_completed q item = Inr (r, p', cs)"
    by (cases "reply_completed q item") (auto simp: completed_def)
  from reply_completed_wf [OF assms(1) rc] rc assms(2) show ?thesis
    by (cases "r = 0") (auto simp: completed_def wf_parser_def)
qed

lemma wf_parser_buffer: "wf_parser (p\<lparr>buffer := b\<rparr>) = wf_parser p"
  by (simp add: wf_parser_def frame_ok_def no_frame_def)

lemma parse_step_wf:
  assumes "parse_step U p = Inr s" "wf_parser p"
  shows "case s of Again p' \<Rightarrow> wf_parser p' \<and> state p' \<noteq> RDBP_CLEAN
         | Return r p' cs \<Rightarrow>
             wf_parser p' \<and>
             (if r = 0 then state p' = state p
              else r = 1 \<and> state p' = RDBP_CLEAN \<and> no_frame p' \<and>
                   (mblk_level p' = 0 \<or> mblk_level p' = 1))"
  using assms(1)
proof (cases rule: parse_step_cases)
  case blocked
  with assms(2) show ?thesis by simp
next
  case (badlen b)
  with assms(2) show ?thesis by (simp add: wf_parser_buffer)
next
  case (bulk b n)
  with assms(2) show ?thesis
    by (auto simp: wf_parser_def frame_ok_def no_frame_def split: if_splits)
next
  case (array b n)
  with assms(2) show ?thesis
    by (auto simp: wf_parser_def frame_ok_def split: if_splits)
next
  case (tag p1)
  from tag(2) have p1: "state p1 \<noteq> RDBP_CLEAN"
    by (auto simp: wait_tag_def Let_def mblk_status_store_def split: if_splits)
  from tag(1,2) assms(2) have "wf_parser p1"
    by (auto simp: wait_tag_def Let_def mblk_status_store_def wf_parser_def frame_ok_def
             split: if_splits)
  with p1 tag(3) show ?thesis by simp
next
  case (scalar b item)
  from scalar(1,2,3) assms(2)
  have "(mblk_level (p\<lparr>buffer := b\<rparr>) = 0 \<and> no_frame (p\<lparr>buffer := b\<rparr>)) \<or>
        frame_ok (p\<lparr>buffer := b\<rparr>)"
    by (cases "state p") (simp_all add: wf_parser_def frame_ok_def no_frame_def)
  from completed_wf [OF this scalar(4)] show ?thesis
    by (cases s) (auto simp: wf_parser_def)
next
  case (nested_end b item r l nxt)
  let ?q = "p\<lparr>buffer := b, mblk_level := mblk_level p - 1, mblk_len := l, mblk_reply := r,
              mblk_store := nxt\<rparr>"
  from nested_end(1,2,3) assms(2) have "frame_ok ?q"
    by (auto simp: wf_parser_def frame_ok_def)
  then have "(mblk_level ?q = 0 \<and> no_frame ?q) \<or> frame_ok ?q" by blast
  from completed_wf [OF this nested_end(4)] show ?thesis
    by (cases s) (auto simp: wf_parser_def)
next
  case (top_end b item)
  let ?q = "p\<lparr>buffer := b, mblk_level := mblk_level p - 1\<rparr>"
  from top_end(1,2) assms(2) have "mblk_level ?q = 0 \<and> no_frame ?q"
    by (auto simp: wf_parser_def no_frame_def)
  then have "(mblk_level ?q = 0 \<and> no_frame ?q) \<or> frame_ok ?q" by blast
  from completed_wf [OF this top_end(3)] show ?thesis
    by (cases s) (auto simp: wf_parser_def)
qed

lemma parse_loop_wf:
  "parse_loop U p = Inr (r, p', cs) \<Longrightarrow> wf_parser p \<Longrightarrow> state p \<noteq> RDBP_CLEAN \<Longrightarrow>
     wf_parser p' \<and>
     (if r = 0 then state p' \<noteq> RDBP_CLEAN
      else r = 1 \<and> state p' = RDBP_CLEAN \<and> no_frame p' \<and>
           (mblk_level p' = 0 \<or> mblk_level p' = 1))"
proof (induction U p arbitrary: r p' cs rule: parse_loop.induct)
  case (1 U p)
  show ?case
  proof (cases "parse_step U p")
    case (Inl e)
    with "1.prems" show ?thesis by (simp add: parse_loop.simps [of U p])
  next
    case (Inr s)
    note st = parse_step_wf [OF Inr "1.prems"(2)]
    show ?thesis
    proof (cases s)
      case (Return r0 p0 cs0)
      with Inr "1.prems" st show ?thesis
        by (auto simp: parse_loop.simps [of U p] split: if_splits)
    next
      case (Again p1)
      with Inr "1.prems" have l: "parse_loop U p1 = Inr (r, p', cs)"
        by (simp add: parse_loop.simps [of U p])
      from st Again have "wf_parser p1" "state p1 \<noteq> RDBP_CLEAN" by simp_all
      from "1.IH" [OF Inr Again l this] show ?thesis .
    qed
  qed
qed

lemma clean_tag_wf:
  "clean_tag p = Inr p1 \<Longrightarrow> wf_parser p \<Longrightarrow> state p = RDBP_CLEAN \<Longrightarrow>
     wf_parser p1 \<and> state p1 \<noteq> RDBP_CLEAN"
  by (auto simp: clean_tag_def Let_def wf_parser_def no_frame_def split: if_splits)

lemma parse_reply_wf:
  assumes "rdb_parser__parse_reply U p = Inr (r, p', cs)" "wf_parser p"
  shows "wf_parser p' \<and>
     (if r = 0 then state p' = RDBP_CLEAN \<longrightarrow> p' = p
      else r = 1 \<and> state p' = RDBP_CLEAN \<and> no_frame p' \<and>
           (mblk_level p' = 0 \<or> mblk_level p' = 1))"
proof (cases "buffer p = []")
  case True
  with assms show ?thesis by (simp add: rdb_parser__parse_reply_def)
next
  case False
  show ?thesis
  proof (cases "state p = RDBP_CLEAN")
    case True
    with False assms obtain p1 where t: "clean_tag p = Inr p1" and
      l: "parse_loop U p1 = Inr (r, p', cs)"
      by (auto simp: rdb_parser__parse_reply_def split: sum.splits)
    from clean_tag_wf [OF t assms(2) True] parse_loop_wf [OF l] show ?thesis
      by (auto split: if_splits)
  next
    case st: False
    with False assms have "parse_loop U p = Inr (r, p', cs)"
      by (simp add: rdb_parser__parse_reply_def)
    from parse_loop_wf [OF this assms(2) st] show ?thesis by (auto split: if_splits)
  qed
qed

lemma wf_init: "wf_parser (rdb_parser__init client u lvl mlen blen)"
  by (simp add: wf_parser_def no_frame_def rdb_parser__init_def)

lemma wf_append: "wf_parser (append_bytes p chunk) = wf_parser p"
  by (simp add: wf_parser_def no_frame_def frame_ok_def append_bytes_def)

section \<open>Appending bytes to a suspended parser\<close>

text \<open>The functions that complete a reply do not read the buffer.\<close>

lemma append_bytes_simps [simp]:
  "buffer (append_bytes p c) = buffer p @ c"
  "state (append_bytes p c) = state p"
  "utf8 (append_bytes p c) = utf8 p"
  "bulk_len (append_bytes p c) = bulk_len p"
  "mblk_level (append_bytes p c) = mblk_level p"
  "mblk_store (append_bytes p c) = mblk_store p"
  "callbacks (append_bytes p c) = callbacks p"
  "default_cb (append_bytes p c) = default_cb p"
  by (simp_all add: append_bytes_def)

lemma mblk_item_buffer_upd:
  "mblk_item (p\<lparr>buffer := b\<rparr>) item =
     (case mblk_item p item of Inl e \<Rightarrow> Inl e | Inr (r, p') \<Rightarrow> Inr (r, p'\<lparr>buffer := b\<rparr>))"
proof (induction "length (mblk_store p)" arbitrary: p item)
  case 0
  then show ?case
    by (subst mblk_item_unfold, subst (2) mblk_item_unfold)
       (simp split: option.splits)
next
  case (Suc k)
  then obtain rr l nxt where st: "mblk_store p = (rr, l) # nxt"
    by (cases "mblk_store p") auto
  show ?case
  proof (cases "mblk_reply p")
    case None
    then show ?thesis
      by (subst mblk_item_unfold, subst (2) mblk_item_unfold) simp
  next
    case (Some av)
    let ?q = "p\<lparr>mblk_level := mblk_level p - 1, mblk_len := l, mblk_reply := rr, mblk_store := nxt\<rparr>"
    have k: "k = length (mblk_store ?q)" using Suc.hyps(2) st by simp
    have ih: "mblk_item (?q\<lparr>buffer := b\<rparr>) (AVref (av @ [item])) =
      (case mblk_item ?q (AVref (av @ [item])) of Inl e \<Rightarrow> Inl e
       | Inr (r, p') \<Rightarrow> Inr (r, p'\<lparr>buffer := b\<rparr>))"
      by (rule Suc.hyps(1) [OF k])
    have c: "?q\<lparr>buffer := b\<rparr> =
       p\<lparr>buffer := b, mblk_level := mblk_level p - 1, mblk_len := l, mblk_reply := rr, mblk_store := nxt\<rparr>"
      by simp
    show ?thesis
      using Some st ih c
      by (subst mblk_item_unfold, subst (2) mblk_item_unfold) simp
  qed
qed

lemma invoke_cb_buffer_upd:
  "invoke_cb (p\<lparr>buffer := b\<rparr>) v =
     (case invoke_cb p v of Inl e \<Rightarrow> Inl e | Inr (r, p', cs) \<Rightarrow> Inr (r, p'\<lparr>buffer := b\<rparr>, cs))"
  by (simp add: invoke_cb_def Let_def split: list.splits option.splits)

lemma reply_completed_buffer_upd:
  "reply_completed (p\<lparr>buffer := b\<rparr>) item =
     (case reply_completed p item of Inl e \<Rightarrow> Inl e
      | Inr (r, p', cs) \<Rightarrow> Inr (r, p'\<lparr>buffer := b\<rparr>, cs))"
proof (cases "mblk_level p = 0")
  case True
  then show ?thesis by (simp add: reply_completed_def invoke_cb_buffer_upd)
next
  case False
  show ?thesis
  proof (cases "mblk_item p item")
    case (Inl e)
    with False show ?thesis by (simp add: reply_completed_def mblk_item_buffer_upd)
  next
    case (Inr x)
    obtain r p1 where x: "x = (r, p1)" by (cases x)
    show ?thesis
    proof (cases "mblk_reply p1")
      case None
      with False Inr x show ?thesis by (simp add: reply_completed_def mblk_item_buffer_upd)
    next
      case (Some av)
      have "invoke_cb (p1\<lparr>buffer := b, mblk_reply := None\<rparr>) (AVref av) =
        (case invoke_cb (p1\<lparr>mblk_reply := None\<rparr>) (AVref av) of Inl e \<Rightarrow> Inl e
         | Inr (r, p', cs) \<Rightarrow> Inr (r, p'\<lparr>buffer := b\<rparr>, cs))"
        using invoke_cb_buffer_upd [where p = "p1\<lparr>mblk_reply := None\<rparr>" and b = b and v = "AVref av"]
        by (cases p1) simp
      with Some False Inr x show ?thesis
        by (simp add: reply_completed_def mblk_item_buffer_upd)
    qed
  qed
qed


text \<open>
  \<open>add_bytes c s\<close> is the outcome \<open>s\<close> of an iteration with the bytes \<open>c\<close> appended to the
  buffer of its parser.
\<close>

definition add_bytes :: "bytes \<Rightarrow> step \<Rightarrow> step" where
  "add_bytes c s =
     (case s of Again p' \<Rightarrow> Again (append_bytes p' c)
      | Return r p' cs \<Rightarrow> Return r (append_bytes p' c) cs)"

lemma step_completed_append:
  assumes "parse_step U p = completed (reply_completed q item)"
    and "parse_step U (append_bytes p c) =
           completed (reply_completed (q\<lparr>buffer := buffer q @ c\<rparr>) item)"
  shows "parse_step U (append_bytes p c) =
           (case parse_step U p of Inl e \<Rightarrow> Inl e | Inr s \<Rightarrow> Inr (add_bytes c s))"
proof (cases "reply_completed q item")
  case (Inl e)
  with assms show ?thesis by (simp add: reply_completed_buffer_upd completed_def)
next
  case (Inr x)
  obtain r p' cs where x: "x = (r, p', cs)" by (cases x)
  from Inr x have "buffer p' = buffer q" by (auto dest: reply_completed_buffer)
  then have "append_bytes p' c = p'\<lparr>buffer := buffer q @ c\<rparr>" by (simp add: append_bytes_def)
  with Inr x assms show ?thesis
    by (simp add: reply_completed_buffer_upd completed_def add_bytes_def)
qed

lemma first_crlf_take_drop:
  assumes "first_crlf b = Some k"
  shows "take k (b @ c) = take k b" "drop (k + 2) (b @ c) = drop (k + 2) b @ c"
    "drop (Suc (Suc k)) (b @ c) = drop (Suc (Suc k)) b @ c"
  using first_crlf_Some [OF assms] by simp_all

lemma step_line_append:
  assumes "state p = RDBP_READ_LINE \<or> state p = RDBP_READ_ERROR \<or> state p = RDBP_READ_NUMBER"
    and "parse_step U p \<noteq> Inr (Return 0 p [])"
  shows "parse_step U (append_bytes p c) =
           (case parse_step U p of Inl e \<Rightarrow> Inl e | Inr s \<Rightarrow> Inr (add_bytes c s))"
proof -
  from assms(2) have len: "\<not> length (buffer p) < 2" by (auto simp: parse_step_def)
  then have ne: "buffer p \<noteq> []" "buffer p @ c \<noteq> []" by auto
  from len have len': "\<not> length (buffer p @ c) < 2" by simp
  from assms ne len obtain k where k: "first_crlf (buffer p) = Some k"
    by (cases "first_crlf (buffer p)")
       (auto simp: parse_step_def read_line_first_crlf read_number_first_crlf)
  note kc = first_crlf_append [OF k, of c]
  from first_crlf_Some [OF k] have td: "k + 2 \<le> length (buffer p)" by simp
  let ?q = "p\<lparr>buffer := drop (k + 2) (buffer p)\<rparr>"
  from assms(1) show ?thesis
  proof (elim disjE)
    assume st: "state p = RDBP_READ_LINE"
    show ?thesis
    proof (rule step_completed_append [where q = ?q and item = "PV (take k (buffer p)) False"])
      show "parse_step U p = completed (reply_completed ?q (PV (take k (buffer p)) False))"
        using st k len ne by (simp add: parse_step_def read_line_first_crlf)
      show "parse_step U (append_bytes p c) =
         completed (reply_completed (?q\<lparr>buffer := buffer ?q @ c\<rparr>) (PV (take k (buffer p)) False))"
        using st kc len' ne td by (simp add: parse_step_def read_line_first_crlf append_bytes_def)
    qed
  next
    assume st: "state p = RDBP_READ_ERROR"
    show ?thesis
    proof (rule step_completed_append
        [where q = ?q and item = "create_rdb_error (PV (take k (buffer p)) False)"])
      show "parse_step U p =
          completed (reply_completed ?q (create_rdb_error (PV (take k (buffer p)) False)))"
        using st k len ne by (simp add: parse_step_def read_line_first_crlf)
      show "parse_step U (append_bytes p c) =
         completed (reply_completed (?q\<lparr>buffer := buffer ?q @ c\<rparr>)
           (create_rdb_error (PV (take k (buffer p)) False)))"
        using st kc len' ne td by (simp add: parse_step_def read_line_first_crlf append_bytes_def)
    qed
  next
    assume st: "state p = RDBP_READ_NUMBER"
    show ?thesis
    proof (rule step_completed_append
        [where q = ?q and item = "IV (atol (cstring (take k (buffer p))))"])
      show "parse_step U p =
          completed (reply_completed ?q (IV (atol (cstring (take k (buffer p))))))"
        using st k len ne by (simp add: parse_step_def read_number_first_crlf)
      show "parse_step U (append_bytes p c) =
         completed (reply_completed (?q\<lparr>buffer := buffer ?q @ c\<rparr>)
           (IV (atol (cstring (take k (buffer p))))))"
        using st kc len' ne td by (simp add: parse_step_def read_number_first_crlf append_bytes_def)
    qed
  qed
qed


lemma step_bulk_len_append:
  assumes "state p = RDBP_READ_BULK_LEN" and "parse_step U p \<noteq> Inr (Return 0 p [])"
  shows "parse_step U (append_bytes p c) =
           (case parse_step U p of Inl e \<Rightarrow> Inl e | Inr s \<Rightarrow> Inr (add_bytes c s))"
proof -
  from assms(2) have len: "\<not> length (buffer p) < 2" by (auto simp: parse_step_def)
  then have ne: "buffer p \<noteq> []" "buffer p @ c \<noteq> []" by auto
  from len have len': "\<not> length (buffer p @ c) < 2" by simp
  from assms ne len obtain k where k: "first_crlf (buffer p) = Some k"
    by (cases "first_crlf (buffer p)") (auto simp: parse_step_def read_length_first_crlf)
  note kc = first_crlf_append [OF k, of c]
  from first_crlf_Some [OF k] have td: "k + 2 \<le> length (buffer p)" by simp
  let ?n = "atol (cstring (take k (buffer p)))"
  let ?q = "p\<lparr>buffer := drop (k + 2) (buffer p)\<rparr>"
  consider "?n \<ge> 0" | "?n = - 1" | "?n < - 1" by linarith
  then show ?thesis
  proof cases
    case 1
    with assms(1) k kc len len' ne td show ?thesis
      by (simp add: parse_step_def read_length_first_crlf append_bytes_def add_bytes_def)
  next
    case 3
    with assms(1) k kc len len' ne td show ?thesis
      by (simp add: parse_step_def read_length_first_crlf append_bytes_def add_bytes_def)
  next
    case 2
    show ?thesis
    proof (rule step_completed_append [where q = ?q and item = Undef])
      show "parse_step U p = completed (reply_completed ?q Undef)"
        using assms(1) 2 k len ne by (simp add: parse_step_def read_length_first_crlf)
      show "parse_step U (append_bytes p c) =
         completed (reply_completed (?q\<lparr>buffer := buffer ?q @ c\<rparr>) Undef)"
        using assms(1) 2 kc len' ne td
        by (simp add: parse_step_def read_length_first_crlf append_bytes_def)
    qed
  qed
qed

lemma step_bulk_append:
  assumes "state p = RDBP_READ_BULK" and "parse_step U p \<noteq> Inr (Return 0 p [])"
  shows "parse_step U (append_bytes p c) =
           (case parse_step U p of Inl e \<Rightarrow> Inl e | Inr s \<Rightarrow> Inr (add_bytes c s))"
proof -
  from assms(2) have len: "\<not> length (buffer p) < 2" by (auto simp: parse_step_def)
  with assms have enough: "\<not> length (buffer p) < 2 + bulk_len p"
    by (auto simp: parse_step_def)
  from len have len': "\<not> length (buffer p @ c) < 2" by simp
  from enough have enough': "\<not> length (buffer p @ c) < 2 + bulk_len p" by simp
  let ?q = "p\<lparr>buffer := drop (bulk_len p + 2) (buffer p)\<rparr>"
  let ?bulk = "take (bulk_len p) (buffer p)"
  show ?thesis
  proof (cases "utf8 p = 0")
    case True
    show ?thesis
    proof (rule step_completed_append [where q = ?q and item = "PV ?bulk False"])
      show "parse_step U p = completed (reply_completed ?q (PV ?bulk False))"
        using assms(1) True len enough by (simp add: parse_step_def Let_def)
      show "parse_step U (append_bytes p c) =
         completed (reply_completed (?q\<lparr>buffer := buffer ?q @ c\<rparr>) (PV ?bulk False))"
        using assms(1) True len' enough' enough
        by (simp add: parse_step_def Let_def append_bytes_def)
    qed
  next
    case u: False
    show ?thesis
    proof (cases "sv_utf8_decode U ?bulk")
      case None
      with assms(1) u len len' enough enough' show ?thesis
        by (simp add: parse_step_def Let_def append_bytes_def)
    next
      case (Some v)
      show ?thesis
      proof (rule step_completed_append [where q = ?q and item = v])
        show "parse_step U p = completed (reply_completed ?q v)"
          using assms(1) u Some len enough by (simp add: parse_step_def Let_def)
        show "parse_step U (append_bytes p c) =
           completed (reply_completed (?q\<lparr>buffer := buffer ?q @ c\<rparr>) v)"
          using assms(1) u Some len' enough' enough
          by (simp add: parse_step_def Let_def append_bytes_def)
      qed
    qed
  qed
qed

lemma step_wait_append:
  assumes "state p = RDBP_WAIT_BUCKS" and "parse_step U p \<noteq> Inr (Return 0 p [])"
  shows "parse_step U (append_bytes p c) =
           (case parse_step U p of Inl e \<Rightarrow> Inl e | Inr s \<Rightarrow> Inr (add_bytes c s))"
proof -
  from assms(2) have len: "\<not> length (buffer p) < 2" by (auto simp: parse_step_def)
  then obtain a r where b: "buffer p = a # r" by (cases "buffer p") auto
  from len have len': "\<not> length (buffer p @ c) < 2" by simp
  have "wait_tag (append_bytes p c) =
          (case wait_tag p of Inl e \<Rightarrow> Inl e | Inr p1 \<Rightarrow> Inr (append_bytes p1 c))"
    using b by (cases p) (simp add: wait_tag_def Let_def append_bytes_def mblk_status_store_def)
  with assms(1) len len' show ?thesis
    by (simp add: parse_step_def add_bytes_def split: sum.splits)
qed

lemma step_mblk_len_append:
  assumes "state p = RDBP_READ_MBLK_LEN" and "parse_step U p \<noteq> Inr (Return 0 p [])"
  shows "parse_step U (append_bytes p c) =
           (case parse_step U p of Inl e \<Rightarrow> Inl e | Inr s \<Rightarrow> Inr (add_bytes c s))"
proof -
  from assms(2) have len: "\<not> length (buffer p) < 2" by (auto simp: parse_step_def)
  then have ne: "buffer p \<noteq> []" "buffer p @ c \<noteq> []" by auto
  from len have len': "\<not> length (buffer p @ c) < 2" by simp
  from assms ne len obtain k where k: "first_crlf (buffer p) = Some k"
    by (cases "first_crlf (buffer p)") (auto simp: parse_step_def read_length_first_crlf)
  note kc = first_crlf_append [OF k, of c]
  from first_crlf_Some [OF k] have td: "k + 2 \<le> length (buffer p)" by simp
  let ?n = "atol (cstring (take k (buffer p)))"
  let ?b = "drop (k + 2) (buffer p)"
  let ?item = "if ?n = 0 then AVref [] else Undef"
  consider "?n > 0" | "?n = 0 \<or> ?n = - 1" | "?n < - 1" by linarith
  then show ?thesis
  proof cases
    case 1
    with assms(1) k kc len len' ne td show ?thesis
      by (cases p)
         (simp add: parse_step_def read_length_first_crlf append_bytes_def add_bytes_def)
  next
    case 3
    with assms(1) k kc len len' ne td show ?thesis
      by (simp add: parse_step_def read_length_first_crlf append_bytes_def add_bytes_def)
  next
    case 2
    show ?thesis
    proof (cases "mblk_level p - 1 > 0")
      case False
      let ?q = "p\<lparr>buffer := ?b, mblk_level := mblk_level p - 1\<rparr>"
      show ?thesis
      proof (rule step_completed_append [where q = ?q and item = ?item])
        show "parse_step U p = completed (reply_completed ?q ?item)"
          using assms(1) 2 False k len ne
          by (auto simp: parse_step_def read_length_first_crlf)
        show "parse_step U (append_bytes p c) =
           completed (reply_completed (?q\<lparr>buffer := buffer ?q @ c\<rparr>) ?item)"
          using assms(1) 2 False kc len' ne td
          by (cases p) (auto simp: parse_step_def read_length_first_crlf append_bytes_def)
      qed
    next
      case True
      show ?thesis
      proof (cases "mblk_store p")
        case Nil
        with assms(1) 2 True k kc len len' ne td show ?thesis
          by (auto simp: parse_step_def read_length_first_crlf append_bytes_def
                mblk_status_fetch_def)
      next
        case (Cons f nxt)
        obtain r l where f: "f = (r, l)" by (cases f)
        let ?q = "p\<lparr>buffer := ?b, mblk_level := mblk_level p - 1, mblk_len := l,
                    mblk_reply := r, mblk_store := nxt\<rparr>"
        show ?thesis
        proof (rule step_completed_append [where q = ?q and item = ?item])
          show "parse_step U p = completed (reply_completed ?q ?item)"
            using assms(1) 2 True Cons f k len ne
            by (auto simp: parse_step_def read_length_first_crlf mblk_status_fetch_def)
          show "parse_step U (append_bytes p c) =
             completed (reply_completed (?q\<lparr>buffer := buffer ?q @ c\<rparr>) ?item)"
            using assms(1) 2 True Cons f kc len' ne td
            by (cases p)
               (auto simp: parse_step_def read_length_first_crlf append_bytes_def
                  mblk_status_fetch_def)
        qed
      qed
    qed
  qed
qed

text \<open>
  An iteration that does anything but return 0 with the parser as it was does the same
  when more bytes follow in the buffer.
\<close>

lemma parse_step_append:
  assumes "parse_step U p \<noteq> Inr (Return 0 p [])"
  shows "parse_step U (append_bytes p c) =
           (case parse_step U p of Inl e \<Rightarrow> Inl e | Inr s \<Rightarrow> Inr (add_bytes c s))"
proof (cases "state p")
  case RDBP_CLEAN
  from assms have "\<not> length (buffer p) < 2" by (auto simp: parse_step_def)
  with RDBP_CLEAN show ?thesis by (simp add: parse_step_def)
next
  case RDBP_READ_LINE
  with assms show ?thesis by (intro step_line_append) simp_all
next
  case RDBP_READ_ERROR
  with assms show ?thesis by (intro step_line_append) simp_all
next
  case RDBP_READ_NUMBER
  with assms show ?thesis by (intro step_line_append) simp_all
next
  case RDBP_READ_BULK_LEN
  with assms show ?thesis by (intro step_bulk_len_append) simp_all
next
  case RDBP_READ_BULK
  with assms show ?thesis by (intro step_bulk_append) simp_all
next
  case RDBP_READ_MBLK_LEN
  with assms show ?thesis by (intro step_mblk_len_append) simp_all
next
  case RDBP_WAIT_BUCKS
  with assms show ?thesis by (intro step_wait_append) simp_all
qed

subsection \<open>The loop, the call and the driver on a longer buffer\<close>

lemma mblk_item_repeat_state:
  "mblk_item p item = Inr (r, p') \<Longrightarrow> r \<noteq> 0 \<Longrightarrow> state p' = RDBP_WAIT_BUCKS"
proof (induction "length (mblk_store p)" arbitrary: p item)
  case 0
  from "0.prems"(1) show ?case using "0.hyps" "0.prems"(2)
    by (subst (asm) mblk_item_unfold) (auto split: option.splits if_splits)
next
  case (Suc k)
  from Suc.hyps(2) obtain rr l nxt where st: "mblk_store p = (rr, l) # nxt"
    by (cases "mblk_store p") auto
  let ?q = "p\<lparr>mblk_level := mblk_level p - 1, mblk_len := l, mblk_reply := rr, mblk_store := nxt\<rparr>"
  have k: "k = length (mblk_store ?q)" using Suc.hyps(2) st by simp
  from Suc.prems(1) show ?case using st Suc.prems(2) Suc.hyps(1) [OF k]
    by (subst (asm) mblk_item_unfold) (auto split: option.splits if_splits)
qed

lemma completed_again_state:
  assumes "completed (reply_completed q item) = Inr (Again p')"
  shows "state p' = RDBP_WAIT_BUCKS"
proof -
  from assms obtain cs where rc: "reply_completed q item = Inr (0, p', cs)"
    by (cases "reply_completed q item") (auto simp: completed_def split: if_splits)
  show ?thesis
  proof (cases "mblk_level q = 0")
    case True
    with rc invoke_cb_calls [of q item 0 p' cs] show ?thesis by (simp add: reply_completed_def)
  next
    case False
    with rc obtain rp p1 where m: "mblk_item q item = Inr (rp, p1)"
      by (auto simp: reply_completed_def split: sum.splits)
    show ?thesis
    proof (cases "rp = 0")
      case nz: False
      with rc m False mblk_item_repeat_state [OF m] show ?thesis
        by (simp add: reply_completed_def)
    next
      case True
      with rc m False obtain av where
        "invoke_cb (p1\<lparr>mblk_reply := None\<rparr>) (AVref av) = Inr (0, p', cs)"
        by (auto simp: reply_completed_def split: option.splits)
      from invoke_cb_calls [OF this] show ?thesis by simp
    qed
  qed
qed

lemma parse_step_again_state:
  assumes "parse_step U p = Inr (Again p')"
  shows "state p' \<noteq> RDBP_CLEAN"
  using assms
proof (cases rule: parse_step_cases)
  case (tag p1)
  then show ?thesis
    by (auto simp: wait_tag_def Let_def mblk_status_store_def split: if_splits)
next
  case (scalar b item)
  from completed_again_state [OF scalar(4)] show ?thesis by simp
next
  case (nested_end b item r l nxt)
  from completed_again_state [OF nested_end(4)] show ?thesis by simp
next
  case (top_end b item)
  from completed_again_state [OF top_end(3)] show ?thesis by simp
qed auto

text \<open>
  \<open>add_bytes_res c x\<close> is the result \<open>x\<close> of the loop or of the call, with the bytes \<open>c\<close>
  appended to the buffer of its parser.
\<close>

definition add_bytes_res ::
  "bytes \<Rightarrow> error + (int \<times> rdb_parser \<times> call list) \<Rightarrow> error + (int \<times> rdb_parser \<times> call list)" where
  "add_bytes_res c x =
     (case x of Inl e \<Rightarrow> Inl e | Inr (r, p', cs) \<Rightarrow> Inr (r, append_bytes p' c, cs))"

text \<open>
  The loop on a longer buffer: either it does what it did and the bytes appended are left
  in the buffer, or it had returned 0 at a parser \<open>p'\<close> where it could not go on, and on
  the longer buffer it does what it does from \<open>p'\<close> with the bytes appended.
\<close>

lemma parse_loop_append:
  "(\<forall>c. parse_loop U (append_bytes p c) = add_bytes_res c (parse_loop U p)) \<or>
   (\<exists>p'. parse_loop U p = Inr (0, p', []) \<and>
         (state p \<noteq> RDBP_CLEAN \<longrightarrow> state p' \<noteq> RDBP_CLEAN) \<and>
         (\<forall>c. parse_loop U (append_bytes p c) = parse_loop U (append_bytes p' c)))"
proof (induction U p rule: parse_loop.induct)
  case (1 U p)
  show ?case
  proof (cases "parse_step U p = Inr (Return 0 p [])")
    case True
    then have "parse_loop U p = Inr (0, p, [])" by (simp add: parse_loop.simps [of U p])
    then show ?thesis by blast
  next
    case False
    note ap = parse_step_append [OF False]
    show ?thesis
    proof (cases "parse_step U p")
      case (Inl e)
      with ap have "\<forall>c. parse_loop U (append_bytes p c) = add_bytes_res c (parse_loop U p)"
        by (simp add: parse_loop.simps [of U p] parse_loop.simps [of U "append_bytes p c" for c]
              add_bytes_res_def)
      then show ?thesis by blast
    next
      case (Inr s)
      show ?thesis
      proof (cases s)
        case (Return r p0 cs0)
        with Inr ap have "\<forall>c. parse_loop U (append_bytes p c) = add_bytes_res c (parse_loop U p)"
          by (simp add: parse_loop.simps [of U p] parse_loop.simps [of U "append_bytes p c" for c]
                add_bytes_res_def add_bytes_def)
        then show ?thesis by blast
      next
        case (Again p1)
        with Inr ap have step: "\<And>c. parse_loop U (append_bytes p c) = parse_loop U (append_bytes p1 c)"
          by (simp add: parse_loop.simps [of U "append_bytes p c" for c] add_bytes_def)
        from Inr Again have here: "parse_loop U p = parse_loop U p1"
          by (simp add: parse_loop.simps [of U p])
        from Inr Again have st: "state p1 \<noteq> RDBP_CLEAN" by (auto dest: parse_step_again_state)
        from "1.IH" [OF Inr Again] show ?thesis
        proof
          assume "\<forall>c. parse_loop U (append_bytes p1 c) = add_bytes_res c (parse_loop U p1)"
          with step here show ?thesis by simp
        next
          assume "\<exists>p'. parse_loop U p1 = Inr (0, p', []) \<and>
             (state p1 \<noteq> RDBP_CLEAN \<longrightarrow> state p' \<noteq> RDBP_CLEAN) \<and>
             (\<forall>c. parse_loop U (append_bytes p1 c) = parse_loop U (append_bytes p' c))"
          then obtain p' where "parse_loop U p1 = Inr (0, p', [])" "state p' \<noteq> RDBP_CLEAN"
            "\<forall>c. parse_loop U (append_bytes p1 c) = parse_loop U (append_bytes p' c)"
            using st by blast
          with step here show ?thesis by auto
        qed
      qed
    qed
  qed
qed


lemma parse_reply_not_clean:
  "state q \<noteq> RDBP_CLEAN \<Longrightarrow> rdb_parser__parse_reply U q = parse_loop U q"
  by (simp add: rdb_parser__parse_reply_def parse_loop_short_buffer)

lemma clean_tag_state: "clean_tag p = Inr p1 \<Longrightarrow> state p1 \<noteq> RDBP_CLEAN"
  by (auto simp: clean_tag_def Let_def split: if_splits)

lemma clean_tag_append:
  "buffer p \<noteq> [] \<Longrightarrow>
   clean_tag (append_bytes p c) =
     (case clean_tag p of Inl e \<Rightarrow> Inl e | Inr p1 \<Rightarrow> Inr (append_bytes p1 c))"
  by (cases p) (auto simp: clean_tag_def Let_def append_bytes_def)

text \<open>
  \<^verbatim>\<open>rdb_parser__parse_reply\<close> on a longer buffer: when the call had returned 0 at a parser
  \<open>p'\<close> where the loop could not go on, the call on the longer buffer is the call from
  \<open>p'\<close> with the bytes appended: the parser resumes where it stopped. Otherwise the call
  does what it did.
\<close>

lemma parse_reply_append:
  "(\<forall>c. rdb_parser__parse_reply U (append_bytes p c) =
          add_bytes_res c (rdb_parser__parse_reply U p)) \<or>
   (\<exists>p'. rdb_parser__parse_reply U p = Inr (0, p', []) \<and>
         (\<forall>c. rdb_parser__parse_reply U (append_bytes p c) =
               rdb_parser__parse_reply U (append_bytes p' c)))"
proof (cases "buffer p = []")
  case True
  then have "rdb_parser__parse_reply U p = Inr (0, p, [])"
    by (simp add: rdb_parser__parse_reply_def)
  then show ?thesis by blast
next
  case False
  have resume: ?thesis
    if q: "state q \<noteq> RDBP_CLEAN"
      and here: "rdb_parser__parse_reply U p = parse_loop U q"
      and there: "\<And>c. rdb_parser__parse_reply U (append_bytes p c) = parse_loop U (append_bytes q c)"
    for q
    using parse_loop_append [of U q]
  proof
    assume "\<forall>c. parse_loop U (append_bytes q c) = add_bytes_res c (parse_loop U q)"
    with here there show ?thesis by simp
  next
    assume "\<exists>p'. parse_loop U q = Inr (0, p', []) \<and>
         (state q \<noteq> RDBP_CLEAN \<longrightarrow> state p' \<noteq> RDBP_CLEAN) \<and>
         (\<forall>c. parse_loop U (append_bytes q c) = parse_loop U (append_bytes p' c))"
    then obtain p' where p': "parse_loop U q = Inr (0, p', [])" "state p' \<noteq> RDBP_CLEAN"
      "\<forall>c. parse_loop U (append_bytes q c) = parse_loop U (append_bytes p' c)"
      using q by blast
    have "rdb_parser__parse_reply U (append_bytes p' c) = parse_loop U (append_bytes p' c)" for c
      using p'(2) by (intro parse_reply_not_clean) simp
    with p' here there show ?thesis by auto
  qed
  show ?thesis
  proof (cases "state p = RDBP_CLEAN")
    case st: False
    show ?thesis
    proof (rule resume [of p])
      show "state p \<noteq> RDBP_CLEAN" by (rule st)
      show "rdb_parser__parse_reply U p = parse_loop U p" using st by (rule parse_reply_not_clean)
      show "rdb_parser__parse_reply U (append_bytes p c) = parse_loop U (append_bytes p c)" for c
        using st by (intro parse_reply_not_clean) simp
    qed
  next
    case True
    show ?thesis
    proof (cases "clean_tag p")
      case (Inl e)
      with True False clean_tag_append [OF False, of c for c]
      have "\<forall>c. rdb_parser__parse_reply U (append_bytes p c) =
          add_bytes_res c (rdb_parser__parse_reply U p)"
        by (simp add: rdb_parser__parse_reply_def add_bytes_res_def)
      then show ?thesis by blast
    next
      case (Inr p1)
      show ?thesis
      proof (rule resume [of p1])
        show "state p1 \<noteq> RDBP_CLEAN" using Inr by (rule clean_tag_state)
        show "rdb_parser__parse_reply U p = parse_loop U p1"
          using Inr True False by (simp add: rdb_parser__parse_reply_def)
        show "rdb_parser__parse_reply U (append_bytes p c) = parse_loop U (append_bytes p1 c)" for c
          using Inr True False clean_tag_append [OF False, of c]
          by (simp add: rdb_parser__parse_reply_def)
      qed
    qed
  qed
qed

text \<open>
  \<open>then_run cs n x\<close> is the run \<open>x\<close> of the driver after a run that has made the calls \<open>cs\<close>
  and delivered \<open>n\<close> replies.
\<close>

definition then_run ::
  "call list \<Rightarrow> nat \<Rightarrow> error + (rdb_parser \<times> call list \<times> nat) \<Rightarrow> error + (rdb_parser \<times> call list \<times> nat)" where
  "then_run cs n x =
     (case x of Inl e \<Rightarrow> Inl e | Inr (q, ds, m) \<Rightarrow> Inr (q, cs @ ds, n + m))"

lemma then_run_then_run: "then_run cs n (then_run ds m x) = then_run (cs @ ds) (n + m) x"
  by (simp add: then_run_def split: sum.splits)

lemma drive_unfold:
  "drive U p =
     (case rdb_parser__parse_reply U p of
        Inl e \<Rightarrow> Inl e
      | Inr (r, p1, cs) \<Rightarrow> if r = 0 then Inr (p1, cs, 0) else then_run cs 1 (drive U p1))"
  by (subst drive.simps) (simp add: then_run_def split: sum.splits)

lemma drive_append:
  "(\<forall>c. drive U (append_bytes p c) =
          (case drive U p of Inl e \<Rightarrow> Inl e | Inr (p', cs, n) \<Rightarrow> Inr (append_bytes p' c, cs, n))) \<or>
   (\<exists>p' cs n. drive U p = Inr (p', cs, n) \<and>
         (\<forall>c. drive U (append_bytes p c) = then_run cs n (drive U (append_bytes p' c))))"
proof (induction U p rule: drive.induct)
  case (1 U p)
  from parse_reply_append [of U p] show ?case
  proof
    assume "\<exists>p'. rdb_parser__parse_reply U p = Inr (0, p', []) \<and>
         (\<forall>c. rdb_parser__parse_reply U (append_bytes p c) =
               rdb_parser__parse_reply U (append_bytes p' c))"
    then obtain p' where p': "rdb_parser__parse_reply U p = Inr (0, p', [])"
      "\<And>c. rdb_parser__parse_reply U (append_bytes p c) =
               rdb_parser__parse_reply U (append_bytes p' c)" by blast
    from p'(1) have "drive U p = Inr (p', [], 0)" by (simp add: drive_unfold)
    moreover have "drive U (append_bytes p c) = then_run [] 0 (drive U (append_bytes p' c))" for c
      using p'(2) [of c]
      by (subst drive_unfold, subst (2) drive_unfold) (simp add: then_run_def split: sum.splits)
    ultimately show ?thesis by blast
  next
    assume stable: "\<forall>c. rdb_parser__parse_reply U (append_bytes p c) =
          add_bytes_res c (rdb_parser__parse_reply U p)"
    show ?thesis
    proof (cases "rdb_parser__parse_reply U p")
      case (Inl e)
      with stable have "\<forall>c. drive U (append_bytes p c) =
          (case drive U p of Inl e \<Rightarrow> Inl e | Inr (p', cs, n) \<Rightarrow> Inr (append_bytes p' c, cs, n))"
        by (simp add: drive_unfold [of U p] drive_unfold [of U "append_bytes p c" for c]
              add_bytes_res_def)
      then show ?thesis by blast
    next
      case (Inr x)
      obtain r p1 cs1 where x: "x = (r, p1, cs1)" by (cases x)
      show ?thesis
      proof (cases "r = 0")
        case True
        with Inr x stable have "\<forall>c. drive U (append_bytes p c) =
          (case drive U p of Inl e \<Rightarrow> Inl e | Inr (p', cs, n) \<Rightarrow> Inr (append_bytes p' c, cs, n))"
          by (simp add: drive_unfold [of U p] drive_unfold [of U "append_bytes p c" for c]
                add_bytes_res_def)
        then show ?thesis by blast
      next
        case False
        from Inr x False have here: "drive U p = then_run cs1 1 (drive U p1)"
          by (simp add: drive_unfold [of U p])
        from Inr x False stable
        have there: "\<And>c. drive U (append_bytes p c) = then_run cs1 1 (drive U (append_bytes p1 c))"
          by (simp add: drive_unfold [of U "append_bytes p c" for c] add_bytes_res_def)
        from Inr x have pr: "rdb_parser__parse_reply U p = Inr (r, p1, cs1)" by simp
        from "1.IH" [OF pr refl refl False] show ?thesis
        proof
          assume "\<forall>c. drive U (append_bytes p1 c) =
            (case drive U p1 of Inl e \<Rightarrow> Inl e | Inr (p', cs, n) \<Rightarrow> Inr (append_bytes p' c, cs, n))"
          with here there have "\<forall>c. drive U (append_bytes p c) =
            (case drive U p of Inl e \<Rightarrow> Inl e | Inr (p', cs, n) \<Rightarrow> Inr (append_bytes p' c, cs, n))"
            by (auto simp: then_run_def split: sum.splits)
          then show ?thesis by blast
        next
          assume "\<exists>p' cs n. drive U p1 = Inr (p', cs, n) \<and>
            (\<forall>c. drive U (append_bytes p1 c) = then_run cs n (drive U (append_bytes p' c)))"
          then obtain p' cs n where d: "drive U p1 = Inr (p', cs, n)"
            "\<And>c. drive U (append_bytes p1 c) = then_run cs n (drive U (append_bytes p' c))"
            by blast
          from here d(1) have "drive U p = Inr (p', cs1 @ cs, 1 + n)" by (simp add: then_run_def)
          moreover have "drive U (append_bytes p c) =
              then_run (cs1 @ cs) (1 + n) (drive U (append_bytes p' c))" for c
            using there [of c] d(2) [of c] by (simp add: then_run_then_run)
          ultimately show ?thesis by blast
        qed
      qed
    qed
  qed
qed

subsection \<open>Feeding a stream in chunks\<close>

lemma append_bytes_empty: "append_bytes p [] = p"
  by (simp add: append_bytes_def)

lemma append_bytes_append: "append_bytes (append_bytes p c) d = append_bytes p (c @ d)"
  by (simp add: append_bytes_def)

lemma drive_empty_buffer: "buffer p = [] \<Longrightarrow> drive U p = Inr (p, [], 0)"
  by (simp add: drive_unfold rdb_parser__parse_reply_def)

lemma feed_empty_chunks:
  "buffer p = [] \<Longrightarrow> concat chunks = [] \<Longrightarrow> feed_chunks U p chunks = Inr (p, [], 0)"
  by (induction chunks) (simp_all add: append_bytes_empty drive_empty_buffer)

lemma feed_chunks_unfold:
  "feed_chunks U p (c # chunks) =
     (case drive U (append_bytes p c) of
        Inl e \<Rightarrow> Inl e
      | Inr (p1, cs1, n1) \<Rightarrow> then_run cs1 n1 (feed_chunks U p1 chunks))"
  by (simp add: then_run_def split: sum.splits)

text \<open>
  When the whole stream, driven at once from \<open>p\<close>, is consumed to the last byte, feeding
  it in chunks from the parser that \<open>p\<close> drives to makes the calls that were still to be
  made and ends in the same parser.
\<close>

lemma feed_chunks_resume:
  "drive U p = Inr (p1, T1, n1) \<Longrightarrow>
   drive U (append_bytes p (concat chunks)) = Inr (q, T, n) \<Longrightarrow> buffer q = [] \<Longrightarrow>
   then_run T1 n1 (feed_chunks U p1 chunks) = Inr (q, T, n)"
proof (induction chunks arbitrary: p p1 T1 n1 T n)
  case Nil
  then show ?case by (simp add: append_bytes_empty then_run_def)
next
  case (Cons c chunks)
  let ?R = "concat chunks"
  from Cons.prems(2) have whole: "drive U (append_bytes p (c @ ?R)) = Inr (q, T, n)" by simp
  from drive_append [of U p] show ?case
  proof
    assume "\<forall>c. drive U (append_bytes p c) =
          (case drive U p of Inl e \<Rightarrow> Inl e | Inr (p', cs, n) \<Rightarrow> Inr (append_bytes p' c, cs, n))"
    with Cons.prems(1) whole have e: "q = append_bytes p1 (c @ ?R)" "T = T1" "n = n1" by auto
    with Cons.prems(3) have b: "buffer p1 = []" "concat (c # chunks) = []" by simp_all
    from b(2) have "c @ ?R = []" by simp
    with e(1) have "q = p1" by (simp only: append_bytes_empty)
    with feed_empty_chunks [OF b, of U] e show ?thesis by (simp add: then_run_def)
  next
    assume "\<exists>p' cs n. drive U p = Inr (p', cs, n) \<and>
         (\<forall>c. drive U (append_bytes p c) = then_run cs n (drive U (append_bytes p' c)))"
    with Cons.prems(1)
    have res: "\<And>d. drive U (append_bytes p d) = then_run T1 n1 (drive U (append_bytes p1 d))"
      by auto
    from res [of "c @ ?R"] whole obtain T2 n2 where
      rest: "drive U (append_bytes p1 (c @ ?R)) = Inr (q, T2, n2)" and
      tn: "T = T1 @ T2" "n = n1 + n2"
      by (auto simp: then_run_def split: sum.splits)
    from rest have rest': "drive U (append_bytes (append_bytes p1 c) ?R) = Inr (q, T2, n2)"
      by (simp add: append_bytes_append)
    have "\<exists>p2 T' n'. drive U (append_bytes p1 c) = Inr (p2, T', n')"
    proof (cases "drive U (append_bytes p1 c)")
      case (Inl e)
      with drive_append [of U "append_bytes p1 c"]
      have "drive U (append_bytes (append_bytes p1 c) ?R) = Inl e" by auto
      with rest' show ?thesis by simp
    next
      case (Inr x)
      then show ?thesis by (cases x) auto
    qed
    then obtain p2 T' n' where d: "drive U (append_bytes p1 c) = Inr (p2, T', n')" by blast
    from Cons.IH [OF d rest' Cons.prems(3)]
    have "then_run T' n' (feed_chunks U p2 chunks) = Inr (q, T2, n2)" .
    with d tn show ?thesis by (simp add: feed_chunks_unfold then_run_def)
  qed
qed

lemma feed_chunks_whole:
  assumes "buffer p = []"
    and "drive U (append_bytes p (concat chunks)) = Inr (q, T, n)" and "buffer q = []"
  shows "feed_chunks U p chunks = Inr (q, T, n)"
proof -
  from assms(1) have "drive U p = Inr (p, [], 0)" by (rule drive_empty_buffer)
  from feed_chunks_resume [OF this assms(2,3)] show ?thesis
    by (simp add: then_run_def split: sum.splits)
qed

section \<open>Valid streams\<close>

text \<open>
  Modelled from the spec: the server that writes the replies is not part of the
  repository. The wire format of section 6: a reply is a simple string \<open>+line CRLF\<close>, an
  error \<open>-line CRLF\<close>, an integer \<open>:int CRLF\<close> in base 10, a bulk \<open>$len CRLF bytes CRLF\<close>
  or the nil bulk \<open>$-1 CRLF\<close>, an array \<open>*len CRLF\<close> followed by \<open>len\<close> replies, or the
  nil array \<open>*-1 CRLF\<close>. A reply is valid when its lines hold no CRLF, its integers and
  lengths fit a \<^verbatim>\<open>long\<close> and, for a parser in UTF-8 mode, its bulk payloads are valid
  UTF-8.
\<close>

datatype resp =
    RString bytes | RError bytes | RInteger int | RBulk bytes | RNil
  | RArray "resp list" | RNilArray

fun encode :: "resp \<Rightarrow> bytes" where
  "encode (RString s) = CHR ''+'' # s @ CRLF"
| "encode (RError s) = CHR ''-'' # s @ CRLF"
| "encode (RInteger n) = CHR '':'' # show_int n @ CRLF"
| "encode (RBulk s) = CHR ''$'' # show_nat (length s) @ CRLF @ s @ CRLF"
| "encode RNil = ''$-1'' @ CRLF"
| "encode (RArray xs) = CHR ''*'' # show_nat (length xs) @ CRLF @ concat (map encode xs)"
| "encode RNilArray = ''*-1'' @ CRLF"

fun valid :: "(bytes \<Rightarrow> bool) \<Rightarrow> int \<Rightarrow> resp \<Rightarrow> bool" where
  "valid U u (RString s) = (first_crlf s = None)"
| "valid U u (RError s) = (first_crlf s = None)"
| "valid U u (RInteger n) = (LONG_MIN \<le> n \<and> n \<le> LONG_MAX)"
| "valid U u (RBulk s) = (int (length s) \<le> LONG_MAX \<and> (u = 0 \<or> U s))"
| "valid U u RNil = True"
| "valid U u (RArray xs) = (int (length xs) \<le> LONG_MAX \<and> (\<forall>x\<in>set xs. valid U u x))"
| "valid U u RNilArray = True"

text \<open>
  The Perl value the parser builds for a reply: a simple string and a bulk are string
  scalars, an error is the error object of its message, a nil bulk and a nil array are
  both the undefined value.
\<close>

fun to_sv :: "int \<Rightarrow> resp \<Rightarrow> sv" where
  "to_sv u (RString s) = PV s False"
| "to_sv u (RError s) = RdbError (PV s False)"
| "to_sv u (RInteger n) = IV n"
| "to_sv u (RBulk s) =
     (if u \<noteq> 0 then PV s (list_ex (\<lambda>c. 128 \<le> (of_char c :: nat)) s) else PV s False)"
| "to_sv u RNil = Undef"
| "to_sv u (RArray xs) = AVref (map (to_sv u) xs)"
| "to_sv u RNilArray = Undef"

text \<open>The field \<^verbatim>\<open>bulk_len\<close> after a reply is read: the length of its last bulk, if any.\<close>

fun bulk_after :: "resp \<Rightarrow> nat \<Rightarrow> nat" where
  "bulk_after (RBulk s) b = length s"
| "bulk_after (RArray xs) b = fold bulk_after xs b"
| "bulk_after v b = b"

text \<open>
  The calls that deliver the values \<open>vs\<close> in order: each takes the head of the queue, or
  the default callback once the queue is empty.
\<close>

fun deliveries :: "cb list \<Rightarrow> cb option \<Rightarrow> handle \<Rightarrow> sv list \<Rightarrow> call list" where
  "deliveries q d h [] = []"
| "deliveries (c # q) d h (v # vs) = (c, h, v) # deliveries q d h vs"
| "deliveries [] (Some c) h (v # vs) = (c, h, v) # deliveries [] (Some c) h vs"
| "deliveries [] None h (v # vs) = []"


section \<open>The parser on a valid reply\<close>

text \<open>\<open>cont U x\<close>: the loop after \<^verbatim>\<open>if (_reply_completed(parser, x)) return 1;\<close>.\<close>

definition cont ::
  "(bytes \<Rightarrow> bool) \<Rightarrow> error + (int \<times> rdb_parser \<times> call list) \<Rightarrow> error + (int \<times> rdb_parser \<times> call list)" where
  "cont U x =
     (case x of Inl e \<Rightarrow> Inl e
      | Inr (r, p', cs) \<Rightarrow> if r \<noteq> 0 then Inr (1, p', cs) else parse_loop U p')"

lemma parse_loop_completed: "parse_step U p = completed x \<Longrightarrow> parse_loop U p = cont U x"
  by (cases x) (auto simp: parse_loop.simps [of U p] completed_def cont_def)

lemma parse_loop_again: "parse_step U p = Inr (Again p1) \<Longrightarrow> parse_loop U p = parse_loop U p1"
  by (simp add: parse_loop.simps [of U p])

lemma cont_invoke_cb: "cont U (invoke_cb q v) = invoke_cb q v"
  by (cases "invoke_cb q v") (auto simp: cont_def dest: invoke_cb_calls)

text \<open>The state the parser is in when a value is completed does not matter.\<close>

lemma invoke_cb_state: "invoke_cb (q\<lparr>state := st\<rparr>) v = invoke_cb q v"
  by (cases q) (simp add: invoke_cb_def)

lemma mblk_item_state:
  "mblk_item (p\<lparr>state := st\<rparr>) item =
     (case mblk_item p item of Inl e \<Rightarrow> Inl e
      | Inr (r, p') \<Rightarrow> Inr (r, if r \<noteq> 0 then p' else p'\<lparr>state := st\<rparr>))"
proof (induction "length (mblk_store p)" arbitrary: p item)
  case 0
  then show ?case
    by (subst mblk_item_unfold, subst (2) mblk_item_unfold)
       (cases p, simp split: option.splits)
next
  case (Suc k)
  then obtain rr l nxt where st: "mblk_store p = (rr, l) # nxt"
    by (cases "mblk_store p") auto
  show ?case
  proof (cases "mblk_reply p")
    case None
    then show ?thesis
      by (subst mblk_item_unfold, subst (2) mblk_item_unfold) simp
  next
    case (Some av)
    let ?q = "p\<lparr>mblk_level := mblk_level p - 1, mblk_len := l, mblk_reply := rr, mblk_store := nxt\<rparr>"
    have k: "k = length (mblk_store ?q)" using Suc.hyps(2) st by simp
    have ih: "mblk_item (?q\<lparr>state := st\<rparr>) (AVref (av @ [item])) =
      (case mblk_item ?q (AVref (av @ [item])) of Inl e \<Rightarrow> Inl e
       | Inr (r, p') \<Rightarrow> Inr (r, if r \<noteq> 0 then p' else p'\<lparr>state := st\<rparr>))"
      by (rule Suc.hyps(1) [OF k])
    have c: "?q\<lparr>state := st\<rparr> =
       p\<lparr>state := st, mblk_level := mblk_level p - 1, mblk_len := l, mblk_reply := rr, mblk_store := nxt\<rparr>"
      by simp
    show ?thesis
      using Some st ih c
      by (subst mblk_item_unfold, subst (2) mblk_item_unfold) (cases p, simp)
  qed
qed

lemma reply_completed_state:
  "reply_completed (p\<lparr>state := st\<rparr>) item = reply_completed p item"
proof (cases "mblk_level p = 0")
  case True
  then show ?thesis by (simp add: reply_completed_def invoke_cb_state)
next
  case False
  show ?thesis
  proof (cases "mblk_item p item")
    case (Inl e)
    with False show ?thesis by (simp add: reply_completed_def mblk_item_state)
  next
    case (Inr x)
    obtain r p1 where x: "x = (r, p1)" by (cases x)
    have "invoke_cb (p1\<lparr>state := st, mblk_reply := None\<rparr>) v =
          invoke_cb (p1\<lparr>mblk_reply := None\<rparr>) v" for v
      by (cases p1) (simp add: invoke_cb_def)
    with False Inr x show ?thesis
      by (simp add: reply_completed_def mblk_item_state split: option.splits)
  qed
qed


subsection \<open>Values that are not arrays\<close>

lemma loop_read_line:
  assumes "state q = RDBP_READ_LINE" "first_crlf s = None" "buffer q = s @ CR # LF # rest"
  shows "parse_loop U q = cont U (reply_completed (q\<lparr>buffer := rest\<rparr>) (PV s False))"
proof (rule parse_loop_completed)
  show "parse_step U q = completed (reply_completed (q\<lparr>buffer := rest\<rparr>) (PV s False))"
    using assms by (simp add: parse_step_def read_line_line)
qed

lemma loop_read_error:
  assumes "state q = RDBP_READ_ERROR" "first_crlf s = None" "buffer q = s @ CR # LF # rest"
  shows "parse_loop U q = cont U (reply_completed (q\<lparr>buffer := rest\<rparr>) (RdbError (PV s False)))"
proof (rule parse_loop_completed)
  show "parse_step U q =
      completed (reply_completed (q\<lparr>buffer := rest\<rparr>) (RdbError (PV s False)))"
    using assms by (simp add: parse_step_def read_line_line create_rdb_error_def)
qed

lemma loop_read_number:
  assumes "state q = RDBP_READ_NUMBER" "LONG_MIN \<le> n" "n \<le> LONG_MAX"
    "buffer q = show_int n @ CR # LF # rest"
  shows "parse_loop U q = cont U (reply_completed (q\<lparr>buffer := rest\<rparr>) (IV n))"
proof (rule parse_loop_completed)
  show "parse_step U q = completed (reply_completed (q\<lparr>buffer := rest\<rparr>) (IV n))"
    using assms by (simp add: parse_step_def read_number_show_int)
qed

lemma loop_read_nil:
  assumes "state q = RDBP_READ_BULK_LEN" "buffer q = ''-1'' @ CR # LF # rest"
  shows "parse_loop U q = cont U (reply_completed (q\<lparr>buffer := rest\<rparr>) Undef)"
proof (rule parse_loop_completed)
  show "parse_step U q = completed (reply_completed (q\<lparr>buffer := rest\<rparr>) Undef)"
    using assms by (intro step_read_bulk_nil) simp_all
qed

lemma loop_read_bulk:
  assumes "state q = RDBP_READ_BULK_LEN" "int (length s) \<le> LONG_MAX" "utf8 q = 0 \<or> U s"
    "buffer q = show_nat (length s) @ CR # LF # s @ CR # LF # rest"
  shows "parse_loop U q =
     cont U (reply_completed (q\<lparr>buffer := rest, bulk_len := length s\<rparr>) (to_sv (utf8 q) (RBulk s)))"
proof -
  let ?q1 = "q\<lparr>buffer := s @ CR # LF # rest, state := RDBP_READ_BULK, bulk_len := length s\<rparr>"
  have "parse_step U q = Inr (Again ?q1)"
    using assms(1,2,4) by (intro step_read_bulk_len) simp_all
  then have a: "parse_loop U q = parse_loop U ?q1" by (rule parse_loop_again)
  have "parse_step U ?q1 =
      completed (reply_completed (?q1\<lparr>buffer := rest\<rparr>) (to_sv (utf8 q) (RBulk s)))"
    using assms(3) step_read_bulk [of ?q1 s CR LF rest U] by auto
  then have "parse_loop U ?q1 =
      cont U (reply_completed (?q1\<lparr>buffer := rest\<rparr>) (to_sv (utf8 q) (RBulk s)))"
    by (rule parse_loop_completed)
  moreover have "?q1\<lparr>buffer := rest\<rparr> =
      (q\<lparr>buffer := rest, bulk_len := length s\<rparr>)\<lparr>state := RDBP_READ_BULK\<rparr>" by simp
  ultimately show ?thesis using a by (simp only: reply_completed_state)
qed

subsection \<open>Arrays\<close>

lemma show_nat_0: "show_nat 0 = ''0''"
  by code_simp

lemma step_wait_tag:
  assumes "state p = RDBP_WAIT_BUCKS" "buffer p = c # b" "b \<noteq> []"
  shows "parse_step U p = (case wait_tag p of Inl e \<Rightarrow> Inl e | Inr p1 \<Rightarrow> Inr (Again p1))"
proof -
  from assms(2,3) have "\<not> length (buffer p) < 2" by (cases b) auto
  with assms(1) show ?thesis by (simp add: parse_step_def)
qed

text \<open>
  The items of an array, read one after the other into the current frame: the loop comes
  to the completion of the last item with all the others pushed on the array.
\<close>

lemma parse_items:
  assumes item: "\<And>x p rest. x \<in> set xs \<Longrightarrow> valid U (utf8 p) x \<Longrightarrow>
        state p = RDBP_WAIT_BUCKS \<Longrightarrow> mblk_level p \<ge> 1 \<Longrightarrow> buffer p = encode x @ rest \<Longrightarrow>
        parse_loop U p =
          cont U (reply_completed (p\<lparr>buffer := rest, bulk_len := bulk_after x (bulk_len p)\<rparr>)
                    (to_sv (utf8 p) x))"
    and "xs \<noteq> []" "\<forall>x\<in>set xs. valid U (utf8 q) x" "state q = RDBP_WAIT_BUCKS"
    "mblk_level q \<ge> 1" "mblk_len q = length xs" "mblk_reply q = Some acc"
    "buffer q = concat (map encode xs) @ rest"
  shows "parse_loop U q =
     cont U (reply_completed
       (q\<lparr>buffer := rest, mblk_reply := Some (acc @ map (to_sv (utf8 q)) (butlast xs)),
          mblk_len := 1, bulk_len := fold bulk_after xs (bulk_len q)\<rparr>)
       (to_sv (utf8 q) (last xs)))"
  using assms
proof (induction xs arbitrary: q acc)
  case Nil
  then show ?case by simp
next
  case (Cons x xs)
  have ix: "parse_loop U q =
          cont U (reply_completed
                    (q\<lparr>buffer := concat (map encode xs) @ rest,
                       bulk_len := bulk_after x (bulk_len q)\<rparr>)
                    (to_sv (utf8 q) x))"
    using Cons.prems by (intro Cons.prems(1)) simp_all
  show ?case
  proof (cases "xs = []")
    case True
    have "q\<lparr>buffer := rest, mblk_reply := Some (acc @ map (to_sv (utf8 q)) (butlast (x # xs))),
          mblk_len := 1, bulk_len := fold bulk_after (x # xs) (bulk_len q)\<rparr> =
          q\<lparr>buffer := rest, bulk_len := bulk_after x (bulk_len q)\<rparr>"
      using True Cons.prems(6,7) by (cases q) simp
    with ix True show ?thesis by simp
  next
    case False
    let ?q1 = "q\<lparr>buffer := concat (map encode xs) @ rest, bulk_len := bulk_after x (bulk_len q)\<rparr>"
    let ?q2 = "?q1\<lparr>mblk_reply := Some (acc @ [to_sv (utf8 q) x]), mblk_len := mblk_len ?q1 - 1,
                   state := RDBP_WAIT_BUCKS\<rparr>"
    from False have "1 < length (x # xs)" by (cases xs) auto
    with Cons.prems(5,6,7) have "reply_completed ?q1 (to_sv (utf8 q) x) = Inr (0, ?q2, [])"
      by (simp add: reply_completed_def mblk_item_unfold)
    with ix have "parse_loop U q = parse_loop U ?q2" by (simp add: cont_def)
    also have "\<dots> =
     cont U (reply_completed
       (?q2\<lparr>buffer := rest,
            mblk_reply := Some ((acc @ [to_sv (utf8 q) x]) @ map (to_sv (utf8 ?q2)) (butlast xs)),
            mblk_len := 1, bulk_len := fold bulk_after xs (bulk_len ?q2)\<rparr>)
       (to_sv (utf8 ?q2) (last xs)))"
    proof (rule Cons.IH [OF _ False])
      show "parse_loop U p =
          cont U (reply_completed (p\<lparr>buffer := rest, bulk_len := bulk_after y (bulk_len p)\<rparr>)
                    (to_sv (utf8 p) y))"
        if "y \<in> set xs" "valid U (utf8 p) y" "state p = RDBP_WAIT_BUCKS" "1 \<le> mblk_level p"
          "buffer p = encode y @ rest" for y p rest
        using that by (intro Cons.prems(1)) simp_all
    qed (use Cons.prems in simp_all)
    also have "?q2\<lparr>buffer := rest,
            mblk_reply := Some ((acc @ [to_sv (utf8 q) x]) @ map (to_sv (utf8 ?q2)) (butlast xs)),
            mblk_len := 1, bulk_len := fold bulk_after xs (bulk_len ?q2)\<rparr> =
       q\<lparr>buffer := rest, mblk_reply := Some (acc @ map (to_sv (utf8 q)) (butlast (x # xs))),
          mblk_len := 1, bulk_len := fold bulk_after (x # xs) (bulk_len q)\<rparr>"
      using False Cons.prems(4) by (cases q) simp
    finally show ?thesis using False by simp
  qed
qed


lemma reply_completed_via_item:
  "mblk_level q \<noteq> 0 \<Longrightarrow> mblk_level q' \<noteq> 0 \<Longrightarrow> mblk_item q i = mblk_item q' i' \<Longrightarrow>
   reply_completed q i = reply_completed q' i'"
  by (simp add: reply_completed_def)

lemma map_butlast_last: "xs \<noteq> [] \<Longrightarrow> map f (butlast xs) @ [f (last xs)] = map f xs"
  by (induction xs) auto

text \<open>
  A valid reply read as an item of the current frame: the loop comes to the completion,
  in this frame, of the value of the reply, with the bytes of the reply taken off the
  buffer. An array inside the frame pushes the frame, reads its own items and, with its
  last item, takes the frame back and completes in it as one value.
\<close>

lemma parse_item:
  "valid U (utf8 p) v \<Longrightarrow> state p = RDBP_WAIT_BUCKS \<Longrightarrow> mblk_level p \<ge> 1 \<Longrightarrow>
   buffer p = encode v @ rest \<Longrightarrow>
   parse_loop U p =
     cont U (reply_completed (p\<lparr>buffer := rest, bulk_len := bulk_after v (bulk_len p)\<rparr>)
               (to_sv (utf8 p) v))"
proof (induction v arbitrary: p rest)
  case (RString s)
  let ?q = "p\<lparr>buffer := s @ CR # LF # rest, state := RDBP_READ_LINE\<rparr>"
  have "parse_step U p = Inr (Again ?q)"
    using RString.prems step_wait_tag [of p "CHR ''+''" "s @ CR # LF # rest" U]
    by (simp add: wait_tag_def)
  then have "parse_loop U p = parse_loop U ?q" by (rule parse_loop_again)
  also have "\<dots> = cont U (reply_completed (?q\<lparr>buffer := rest\<rparr>) (PV s False))"
    using RString.prems by (intro loop_read_line) simp_all
  also have "?q\<lparr>buffer := rest\<rparr> =
      (p\<lparr>buffer := rest, bulk_len := bulk_after (RString s) (bulk_len p)\<rparr>)\<lparr>state := RDBP_READ_LINE\<rparr>"
    by simp
  finally show ?case by (simp only: reply_completed_state to_sv.simps)
next
  case (RError s)
  let ?q = "p\<lparr>buffer := s @ CR # LF # rest, state := RDBP_READ_ERROR\<rparr>"
  have "parse_step U p = Inr (Again ?q)"
    using RError.prems step_wait_tag [of p "CHR ''-''" "s @ CR # LF # rest" U]
    by (simp add: wait_tag_def)
  then have "parse_loop U p = parse_loop U ?q" by (rule parse_loop_again)
  also have "\<dots> = cont U (reply_completed (?q\<lparr>buffer := rest\<rparr>) (RdbError (PV s False)))"
    using RError.prems by (intro loop_read_error) simp_all
  also have "?q\<lparr>buffer := rest\<rparr> =
      (p\<lparr>buffer := rest, bulk_len := bulk_after (RError s) (bulk_len p)\<rparr>)\<lparr>state := RDBP_READ_ERROR\<rparr>"
    by simp
  finally show ?case by (simp only: reply_completed_state to_sv.simps)
next
  case (RInteger n)
  let ?q = "p\<lparr>buffer := show_int n @ CR # LF # rest, state := RDBP_READ_NUMBER\<rparr>"
  have "parse_step U p = Inr (Again ?q)"
    using RInteger.prems step_wait_tag [of p "CHR '':''" "show_int n @ CR # LF # rest" U]
    by (simp add: wait_tag_def)
  then have "parse_loop U p = parse_loop U ?q" by (rule parse_loop_again)
  also have "\<dots> = cont U (reply_completed (?q\<lparr>buffer := rest\<rparr>) (IV n))"
    using RInteger.prems by (intro loop_read_number) simp_all
  also have "?q\<lparr>buffer := rest\<rparr> =
      (p\<lparr>buffer := rest, bulk_len := bulk_after (RInteger n) (bulk_len p)\<rparr>)\<lparr>state := RDBP_READ_NUMBER\<rparr>"
    by simp
  finally show ?case by (simp only: reply_completed_state to_sv.simps)
next
  case (RBulk s)
  let ?q = "p\<lparr>buffer := show_nat (length s) @ CR # LF # s @ CR # LF # rest,
               state := RDBP_READ_BULK_LEN\<rparr>"
  have "parse_step U p = Inr (Again ?q)"
    using RBulk.prems
      step_wait_tag [of p "CHR ''$''" "show_nat (length s) @ CR # LF # s @ CR # LF # rest" U]
    by (simp add: wait_tag_def)
  then have "parse_loop U p = parse_loop U ?q" by (rule parse_loop_again)
  also have "\<dots> = cont U (reply_completed (?q\<lparr>buffer := rest, bulk_len := length s\<rparr>)
                              (to_sv (utf8 ?q) (RBulk s)))"
    using RBulk.prems by (intro loop_read_bulk) auto
  also have "?q\<lparr>buffer := rest, bulk_len := length s\<rparr> =
      (p\<lparr>buffer := rest, bulk_len := bulk_after (RBulk s) (bulk_len p)\<rparr>)\<lparr>state := RDBP_READ_BULK_LEN\<rparr>"
    by simp
  finally show ?case by (simp only: reply_completed_state) simp
next
  case RNil
  let ?q = "p\<lparr>buffer := ''-1'' @ CR # LF # rest, state := RDBP_READ_BULK_LEN\<rparr>"
  have "parse_step U p = Inr (Again ?q)"
    using RNil.prems step_wait_tag [of p "CHR ''$''" "''-1'' @ CR # LF # rest" U]
    by (simp add: wait_tag_def)
  then have "parse_loop U p = parse_loop U ?q" by (rule parse_loop_again)
  also have "\<dots> = cont U (reply_completed (?q\<lparr>buffer := rest\<rparr>) Undef)"
    by (intro loop_read_nil) simp_all
  also have "?q\<lparr>buffer := rest\<rparr> =
      (p\<lparr>buffer := rest, bulk_len := bulk_after RNil (bulk_len p)\<rparr>)\<lparr>state := RDBP_READ_BULK_LEN\<rparr>"
    by simp
  finally show ?case by (simp only: reply_completed_state to_sv.simps)
next
  case RNilArray
  let ?q = "p\<lparr>buffer := ''-1'' @ CR # LF # rest, state := RDBP_READ_MBLK_LEN,
              mblk_level := mblk_level p + 1,
              mblk_store := (mblk_reply p, mblk_len p) # mblk_store p, mblk_reply := None\<rparr>"
  have "parse_step U p = Inr (Again ?q)"
    using RNilArray.prems step_wait_tag [of p "CHR ''*''" "''-1'' @ CR # LF # rest" U]
    by (simp add: wait_tag_def mblk_status_store_def)
  then have "parse_loop U p = parse_loop U ?q" by (rule parse_loop_again)
  also have "\<dots> = cont U (reply_completed
       ((p\<lparr>buffer := rest, bulk_len := bulk_after RNilArray (bulk_len p)\<rparr>)
          \<lparr>state := RDBP_READ_MBLK_LEN\<rparr>) Undef)"
  proof (rule parse_loop_completed)
    have A: "parse_step U ?q =
       completed (reply_completed
         (?q\<lparr>buffer := rest, mblk_level := mblk_level ?q - 1, mblk_len := mblk_len p,
             mblk_reply := mblk_reply p, mblk_store := mblk_store p\<rparr>) Undef)"
      using RNilArray.prems(3) step_read_mblk_empty [of ?q "''-1''" rest U] by simp
    have B: "?q\<lparr>buffer := rest, mblk_level := mblk_level ?q - 1, mblk_len := mblk_len p,
             mblk_reply := mblk_reply p, mblk_store := mblk_store p\<rparr> =
          (p\<lparr>buffer := rest, bulk_len := bulk_after RNilArray (bulk_len p)\<rparr>)
            \<lparr>state := RDBP_READ_MBLK_LEN\<rparr>"
      by (cases p) simp
    from A [unfolded B] show "parse_step U ?q = completed (reply_completed
       ((p\<lparr>buffer := rest, bulk_len := bulk_after RNilArray (bulk_len p)\<rparr>)
          \<lparr>state := RDBP_READ_MBLK_LEN\<rparr>) Undef)" .
  qed
  finally show ?case by (simp only: reply_completed_state to_sv.simps)
next
  case (RArray xs)
  let ?n = "length xs"
  let ?items = "concat (map encode xs)"
  let ?q = "p\<lparr>buffer := show_nat ?n @ CR # LF # ?items @ rest, state := RDBP_READ_MBLK_LEN,
              mblk_level := mblk_level p + 1,
              mblk_store := (mblk_reply p, mblk_len p) # mblk_store p, mblk_reply := None\<rparr>"
  let ?B = "bulk_after (RArray xs) (bulk_len p)"
  have "parse_step U p = Inr (Again ?q)"
    using RArray.prems step_wait_tag [of p "CHR ''*''" "show_nat ?n @ CR # LF # ?items @ rest" U]
    by (simp add: wait_tag_def mblk_status_store_def)
  then have first: "parse_loop U p = parse_loop U ?q" by (rule parse_loop_again)
  show ?case
  proof (cases "xs = []")
    case True
    have "parse_loop U ?q = cont U (reply_completed
       ((p\<lparr>buffer := rest, bulk_len := ?B\<rparr>)\<lparr>state := RDBP_READ_MBLK_LEN\<rparr>) (AVref []))"
    proof (rule parse_loop_completed)
      have A: "parse_step U ?q =
         completed (reply_completed
           (?q\<lparr>buffer := rest, mblk_level := mblk_level ?q - 1, mblk_len := mblk_len p,
               mblk_reply := mblk_reply p, mblk_store := mblk_store p\<rparr>) (AVref []))"
        using True RArray.prems(3) step_read_mblk_empty [of ?q "''0''" rest U]
        by (simp add: show_nat_0)
      have B: "?q\<lparr>buffer := rest, mblk_level := mblk_level ?q - 1, mblk_len := mblk_len p,
               mblk_reply := mblk_reply p, mblk_store := mblk_store p\<rparr> =
            (p\<lparr>buffer := rest, bulk_len := ?B\<rparr>)\<lparr>state := RDBP_READ_MBLK_LEN\<rparr>"
        using True by (cases p) simp
      from A [unfolded B] show "parse_step U ?q = completed (reply_completed
         ((p\<lparr>buffer := rest, bulk_len := ?B\<rparr>)\<lparr>state := RDBP_READ_MBLK_LEN\<rparr>) (AVref []))" .
    qed
    with first True show ?thesis by (simp only: reply_completed_state) simp
  next
    case False
    let ?q1 = "?q\<lparr>buffer := ?items @ rest, mblk_len := ?n, state := RDBP_WAIT_BUCKS,
                  mblk_reply := Some []\<rparr>"
    have "parse_step U ?q = Inr (Again ?q1)"
      using False RArray.prems(1) step_read_mblk_len [of ?q ?n "?items @ rest" U] by simp
    then have second: "parse_loop U ?q = parse_loop U ?q1" by (rule parse_loop_again)
    let ?ql = "?q1\<lparr>buffer := rest, mblk_reply := Some ([] @ map (to_sv (utf8 ?q1)) (butlast xs)),
                  mblk_len := 1, bulk_len := fold bulk_after xs (bulk_len ?q1)\<rparr>"
    have third: "parse_loop U ?q1 = cont U (reply_completed ?ql (to_sv (utf8 ?q1) (last xs)))"
    proof (rule parse_items [OF _ False])
      show "parse_loop U p' =
          cont U (reply_completed (p'\<lparr>buffer := rest', bulk_len := bulk_after x (bulk_len p')\<rparr>)
                    (to_sv (utf8 p') x))"
        if "x \<in> set xs" "valid U (utf8 p') x" "state p' = RDBP_WAIT_BUCKS" "1 \<le> mblk_level p'"
          "buffer p' = encode x @ rest'" for x p' rest'
        using that by (intro RArray.IH) simp_all
    qed (use RArray.prems in simp_all)
    have last: "reply_completed ?ql (to_sv (utf8 ?q1) (last xs)) =
        reply_completed ((p\<lparr>buffer := rest, bulk_len := ?B\<rparr>)\<lparr>state := RDBP_WAIT_BUCKS\<rparr>)
          (AVref (map (to_sv (utf8 p)) xs))"
    proof (rule reply_completed_via_item)
      show "mblk_level ?ql \<noteq> 0" using RArray.prems(3) by simp
      show "mblk_level ((p\<lparr>buffer := rest, bulk_len := ?B\<rparr>)\<lparr>state := RDBP_WAIT_BUCKS\<rparr>) \<noteq> 0"
        using RArray.prems(3) by simp
      have lv: "1 < mblk_level p + 1" using RArray.prems(3) by simp
      have M: "mblk_item ?ql (to_sv (utf8 ?q1) (last xs)) =
          mblk_item (?ql\<lparr>mblk_level := mblk_level ?ql - 1, mblk_len := mblk_len p,
                         mblk_reply := mblk_reply p, mblk_store := mblk_store p\<rparr>)
            (AVref (map (to_sv (utf8 p)) (butlast xs) @ [to_sv (utf8 p) (last xs)]))"
        using lv by (subst mblk_item_unfold) simp
      have E: "?ql\<lparr>mblk_level := mblk_level ?ql - 1, mblk_len := mblk_len p,
                         mblk_reply := mblk_reply p, mblk_store := mblk_store p\<rparr> =
          (p\<lparr>buffer := rest, bulk_len := ?B\<rparr>)\<lparr>state := RDBP_WAIT_BUCKS\<rparr>"
        by (cases p) simp
      have L: "map (to_sv (utf8 p)) (butlast xs) @ [to_sv (utf8 p) (last xs)] =
          map (to_sv (utf8 p)) xs"
        using False by (rule map_butlast_last)
      from M [unfolded E L]
      show "mblk_item ?ql (to_sv (utf8 ?q1) (last xs)) =
          mblk_item ((p\<lparr>buffer := rest, bulk_len := ?B\<rparr>)\<lparr>state := RDBP_WAIT_BUCKS\<rparr>)
            (AVref (map (to_sv (utf8 p)) xs))" .
    qed
    from first second third last show ?thesis by (simp only: reply_completed_state) simp
  qed
qed

subsection \<open>A reply at the top level\<close>

text \<open>
  \<open>mblk_level\<close> and \<open>mblk_len\<close> after a reply is delivered: both are 1 after an array with
  an item; otherwise the level is 0 and the length is as it was.
\<close>

fun level_after :: "resp \<Rightarrow> int" where
  "level_after (RArray (x # xs)) = 1"
| "level_after v = 0"

fun len_after :: "resp \<Rightarrow> nat \<Rightarrow> nat" where
  "len_after (RArray (x # xs)) m = 1"
| "len_after v m = m"

lemma reply_completed_level0:
  "mblk_level q = 0 \<Longrightarrow> cont U (reply_completed q item) = invoke_cb q item"
  by (simp add: reply_completed_def cont_invoke_cb)

lemma reply_completed_top_array:
  "mblk_level q = 1 \<Longrightarrow> mblk_len q \<le> 1 \<Longrightarrow> mblk_reply q = Some av \<Longrightarrow>
   cont U (reply_completed q item) = invoke_cb (q\<lparr>mblk_reply := None\<rparr>) (AVref (av @ [item]))"
  by (simp add: reply_completed_def mblk_item_unfold cont_invoke_cb)

lemma parse_reply_clean:
  assumes "state p = RDBP_CLEAN" "buffer p = c # b" "tag_state c = Some st"
  shows "rdb_parser__parse_reply U p =
     parse_loop U (p\<lparr>buffer := b, state := st, mblk_level := (if c = CHR ''*'' then 1 else 0)\<rparr>)"
  using assms by (simp add: rdb_parser__parse_reply_def clean_tag_table)


text \<open>The parser after it has read the reply \<open>v\<close> at the top level, before the callback.\<close>

definition after_reply :: "rdb_parser \<Rightarrow> resp \<Rightarrow> bytes \<Rightarrow> rdb_parser" where
  "after_reply p v rest =
     p\<lparr>buffer := rest, mblk_level := level_after v, mblk_len := len_after v (mblk_len p),
       bulk_len := bulk_after v (bulk_len p)\<rparr>"

lemma parse_top:
  assumes "valid U (utf8 p) v" "state p = RDBP_CLEAN" "mblk_reply p = None"
    "buffer p = encode v @ rest"
  shows "rdb_parser__parse_reply U p = invoke_cb (after_reply p v rest) (to_sv (utf8 p) v)"
proof (cases v)
  case (RString s)
  let ?q = "p\<lparr>buffer := s @ CR # LF # rest, state := RDBP_READ_LINE, mblk_level := 0\<rparr>"
  have "rdb_parser__parse_reply U p = parse_loop U ?q"
    using assms RString parse_reply_clean [of p "CHR ''+''" "s @ CR # LF # rest" RDBP_READ_LINE U]
    by (simp add: tag_state_def)
  also have "\<dots> = cont U (reply_completed (?q\<lparr>buffer := rest\<rparr>) (PV s False))"
    using assms RString by (intro loop_read_line) simp_all
  also have "\<dots> = invoke_cb (?q\<lparr>buffer := rest\<rparr>) (PV s False)"
    by (rule reply_completed_level0) simp
  also have "?q\<lparr>buffer := rest\<rparr> = (after_reply p v rest)\<lparr>state := RDBP_READ_LINE\<rparr>"
    using RString by (cases p) (simp add: after_reply_def)
  finally show ?thesis using RString by (simp only: invoke_cb_state to_sv.simps)
next
  case (RError s)
  let ?q = "p\<lparr>buffer := s @ CR # LF # rest, state := RDBP_READ_ERROR, mblk_level := 0\<rparr>"
  have "rdb_parser__parse_reply U p = parse_loop U ?q"
    using assms RError parse_reply_clean [of p "CHR ''-''" "s @ CR # LF # rest" RDBP_READ_ERROR U]
    by (simp add: tag_state_def)
  also have "\<dots> = cont U (reply_completed (?q\<lparr>buffer := rest\<rparr>) (RdbError (PV s False)))"
    using assms RError by (intro loop_read_error) simp_all
  also have "\<dots> = invoke_cb (?q\<lparr>buffer := rest\<rparr>) (RdbError (PV s False))"
    by (rule reply_completed_level0) simp
  also have "?q\<lparr>buffer := rest\<rparr> = (after_reply p v rest)\<lparr>state := RDBP_READ_ERROR\<rparr>"
    using RError by (cases p) (simp add: after_reply_def)
  finally show ?thesis using RError by (simp only: invoke_cb_state to_sv.simps)
next
  case (RInteger n)
  let ?q = "p\<lparr>buffer := show_int n @ CR # LF # rest, state := RDBP_READ_NUMBER, mblk_level := 0\<rparr>"
  have "rdb_parser__parse_reply U p = parse_loop U ?q"
    using assms RInteger
      parse_reply_clean [of p "CHR '':''" "show_int n @ CR # LF # rest" RDBP_READ_NUMBER U]
    by (simp add: tag_state_def)
  also have "\<dots> = cont U (reply_completed (?q\<lparr>buffer := rest\<rparr>) (IV n))"
    using assms RInteger by (intro loop_read_number) simp_all
  also have "\<dots> = invoke_cb (?q\<lparr>buffer := rest\<rparr>) (IV n)"
    by (rule reply_completed_level0) simp
  also have "?q\<lparr>buffer := rest\<rparr> = (after_reply p v rest)\<lparr>state := RDBP_READ_NUMBER\<rparr>"
    using RInteger by (cases p) (simp add: after_reply_def)
  finally show ?thesis using RInteger by (simp only: invoke_cb_state to_sv.simps)
next
  case (RBulk s)
  let ?q = "p\<lparr>buffer := show_nat (length s) @ CR # LF # s @ CR # LF # rest,
               state := RDBP_READ_BULK_LEN, mblk_level := 0\<rparr>"
  have "rdb_parser__parse_reply U p = parse_loop U ?q"
    using assms RBulk
      parse_reply_clean [of p "CHR ''$''" "show_nat (length s) @ CR # LF # s @ CR # LF # rest"
        RDBP_READ_BULK_LEN U]
    by (simp add: tag_state_def)
  also have "\<dots> = cont U (reply_completed (?q\<lparr>buffer := rest, bulk_len := length s\<rparr>)
                              (to_sv (utf8 ?q) (RBulk s)))"
    using assms RBulk by (intro loop_read_bulk) auto
  also have "\<dots> = invoke_cb (?q\<lparr>buffer := rest, bulk_len := length s\<rparr>) (to_sv (utf8 ?q) (RBulk s))"
    by (rule reply_completed_level0) simp
  also have "?q\<lparr>buffer := rest, bulk_len := length s\<rparr> =
      (after_reply p v rest)\<lparr>state := RDBP_READ_BULK_LEN\<rparr>"
    using RBulk by (cases p) (simp add: after_reply_def)
  finally show ?thesis using RBulk by (simp only: invoke_cb_state) simp
next
  case RNil
  let ?q = "p\<lparr>buffer := ''-1'' @ CR # LF # rest, state := RDBP_READ_BULK_LEN, mblk_level := 0\<rparr>"
  have "rdb_parser__parse_reply U p = parse_loop U ?q"
    using assms RNil
      parse_reply_clean [of p "CHR ''$''" "''-1'' @ CR # LF # rest" RDBP_READ_BULK_LEN U]
    by (simp add: tag_state_def)
  also have "\<dots> = cont U (reply_completed (?q\<lparr>buffer := rest\<rparr>) Undef)"
    by (intro loop_read_nil) simp_all
  also have "\<dots> = invoke_cb (?q\<lparr>buffer := rest\<rparr>) Undef"
    by (rule reply_completed_level0) simp
  also have "?q\<lparr>buffer := rest\<rparr> = (after_reply p v rest)\<lparr>state := RDBP_READ_BULK_LEN\<rparr>"
    using RNil by (cases p) (simp add: after_reply_def)
  finally show ?thesis using RNil by (simp only: invoke_cb_state to_sv.simps)
next
  case RNilArray
  let ?q = "p\<lparr>buffer := ''-1'' @ CR # LF # rest, state := RDBP_READ_MBLK_LEN, mblk_level := 1\<rparr>"
  have "rdb_parser__parse_reply U p = parse_loop U ?q"
    using assms RNilArray
      parse_reply_clean [of p "CHR ''*''" "''-1'' @ CR # LF # rest" RDBP_READ_MBLK_LEN U]
    by (simp add: tag_state_def)
  also have "\<dots> = cont U (reply_completed (?q\<lparr>buffer := rest, mblk_level := mblk_level ?q - 1\<rparr>) Undef)"
  proof (rule parse_loop_completed)
    show "parse_step U ?q =
        completed (reply_completed (?q\<lparr>buffer := rest, mblk_level := mblk_level ?q - 1\<rparr>) Undef)"
      using step_read_mblk_empty [of ?q "''-1''" rest U] by simp
  qed
  also have "\<dots> = invoke_cb (?q\<lparr>buffer := rest, mblk_level := mblk_level ?q - 1\<rparr>) Undef"
    by (rule reply_completed_level0) simp
  also have "?q\<lparr>buffer := rest, mblk_level := mblk_level ?q - 1\<rparr> =
      (after_reply p v rest)\<lparr>state := RDBP_READ_MBLK_LEN\<rparr>"
    using RNilArray by (cases p) (simp add: after_reply_def)
  finally show ?thesis using RNilArray by (simp only: invoke_cb_state to_sv.simps)
next
  case (RArray xs)
  let ?n = "length xs"
  let ?items = "concat (map encode xs)"
  let ?q = "p\<lparr>buffer := show_nat ?n @ CR # LF # ?items @ rest, state := RDBP_READ_MBLK_LEN,
              mblk_level := 1\<rparr>"
  have first: "rdb_parser__parse_reply U p = parse_loop U ?q"
    using assms RArray
      parse_reply_clean [of p "CHR ''*''" "show_nat ?n @ CR # LF # ?items @ rest"
        RDBP_READ_MBLK_LEN U]
    by (simp add: tag_state_def)
  show ?thesis
  proof (cases "xs = []")
    case True
    have "parse_loop U ?q =
        cont U (reply_completed (?q\<lparr>buffer := rest, mblk_level := mblk_level ?q - 1\<rparr>) (AVref []))"
    proof (rule parse_loop_completed)
      show "parse_step U ?q =
          completed (reply_completed (?q\<lparr>buffer := rest, mblk_level := mblk_level ?q - 1\<rparr>)
                       (AVref []))"
        using True step_read_mblk_empty [of ?q "''0''" rest U] by (simp add: show_nat_0)
    qed
    also have "\<dots> = invoke_cb (?q\<lparr>buffer := rest, mblk_level := mblk_level ?q - 1\<rparr>) (AVref [])"
      by (rule reply_completed_level0) simp
    also have "?q\<lparr>buffer := rest, mblk_level := mblk_level ?q - 1\<rparr> =
        (after_reply p v rest)\<lparr>state := RDBP_READ_MBLK_LEN\<rparr>"
      using RArray True by (cases p) (simp add: after_reply_def)
    finally show ?thesis using first RArray True by (simp only: invoke_cb_state) simp
  next
    case False
    let ?q1 = "?q\<lparr>buffer := ?items @ rest, mblk_len := ?n, state := RDBP_WAIT_BUCKS,
                  mblk_reply := Some []\<rparr>"
    have "parse_step U ?q = Inr (Again ?q1)"
      using False assms(1) RArray step_read_mblk_len [of ?q ?n "?items @ rest" U] by simp
    then have second: "parse_loop U ?q = parse_loop U ?q1" by (rule parse_loop_again)
    let ?ql = "?q1\<lparr>buffer := rest, mblk_reply := Some ([] @ map (to_sv (utf8 ?q1)) (butlast xs)),
                  mblk_len := 1, bulk_len := fold bulk_after xs (bulk_len ?q1)\<rparr>"
    have third: "parse_loop U ?q1 = cont U (reply_completed ?ql (to_sv (utf8 ?q1) (last xs)))"
    proof (rule parse_items [OF _ False])
      show "parse_loop U p' =
          cont U (reply_completed (p'\<lparr>buffer := rest', bulk_len := bulk_after x (bulk_len p')\<rparr>)
                    (to_sv (utf8 p') x))"
        if "x \<in> set xs" "valid U (utf8 p') x" "state p' = RDBP_WAIT_BUCKS" "1 \<le> mblk_level p'"
          "buffer p' = encode x @ rest'" for x p' rest'
        using that(2-5) by (rule parse_item)
    qed (use assms RArray in simp_all)
    have fourth: "cont U (reply_completed ?ql (to_sv (utf8 ?q1) (last xs))) =
        invoke_cb (?ql\<lparr>mblk_reply := None\<rparr>)
          (AVref (([] @ map (to_sv (utf8 ?q1)) (butlast xs)) @ [to_sv (utf8 ?q1) (last xs)]))"
      by (rule reply_completed_top_array) simp_all
    have L: "([] @ map (to_sv (utf8 ?q1)) (butlast xs)) @ [to_sv (utf8 ?q1) (last xs)] =
        map (to_sv (utf8 p)) xs"
      using map_butlast_last [OF False, of "to_sv (utf8 p)"] by simp
    have E: "?ql\<lparr>mblk_reply := None\<rparr> = (after_reply p v rest)\<lparr>state := RDBP_WAIT_BUCKS\<rparr>"
      using RArray False assms(3) by (cases p; cases xs) (simp_all add: after_reply_def)
    from first second third fourth [unfolded L E] show ?thesis
      using RArray by (simp only: invoke_cb_state) simp
  qed
qed

subsection \<open>A stream of replies\<close>

lemma invoke_cb_deliver:
  assumes "callbacks q \<noteq> [] \<or> default_cb q \<noteq> None"
  shows "invoke_cb q v =
     Inr (1, q\<lparr>state := RDBP_CLEAN, callbacks := tl (callbacks q)\<rparr>,
          deliveries (callbacks q) (default_cb q) (redisdb q) [v])"
  using assms by (cases q) (auto simp: invoke_cb_def Let_def split: list.splits option.splits)

lemma deliveries_Cons:
  "q \<noteq> [] \<or> d \<noteq> None \<Longrightarrow>
   deliveries q d h (v # vs) = deliveries q d h [v] @ deliveries (tl q) d h vs"
  by (cases q; cases d) auto



lemma after_reply_fields:
  "utf8 (after_reply p v rest) = utf8 p"
  "redisdb (after_reply p v rest) = redisdb p"
  "callbacks (after_reply p v rest) = callbacks p"
  "default_cb (after_reply p v rest) = default_cb p"
  "buffer (after_reply p v rest) = rest"
  "mblk_reply (after_reply p v rest) = mblk_reply p"
  by (simp_all add: after_reply_def)

lemma parse_top_deliver:
  assumes "valid U (utf8 p) v" "state p = RDBP_CLEAN" "mblk_reply p = None"
    "buffer p = encode v @ rest" "callbacks p \<noteq> [] \<or> default_cb p \<noteq> None"
  shows "rdb_parser__parse_reply U p =
     Inr (1, (after_reply p v rest)\<lparr>state := RDBP_CLEAN, callbacks := tl (callbacks p)\<rparr>,
          deliveries (callbacks p) (default_cb p) (redisdb p) [to_sv (utf8 p) v])"
proof -
  have "rdb_parser__parse_reply U p = invoke_cb (after_reply p v rest) (to_sv (utf8 p) v)"
    using assms(1-4) by (rule parse_top)
  also have "\<dots> = Inr (1, (after_reply p v rest)\<lparr>state := RDBP_CLEAN,
                 callbacks := tl (callbacks (after_reply p v rest))\<rparr>,
          deliveries (callbacks (after_reply p v rest)) (default_cb (after_reply p v rest))
            (redisdb (after_reply p v rest)) [to_sv (utf8 p) v])"
    by (rule invoke_cb_deliver) (use assms(5) in \<open>simp only: after_reply_fields\<close>)
  finally show ?thesis by (simp only: after_reply_fields)
qed


lemma drive_stream:
  assumes "\<forall>v\<in>set vs. valid U (utf8 p) v" "state p = RDBP_CLEAN" "mblk_reply p = None"
    "buffer p = concat (map encode vs)"
    "default_cb p \<noteq> None \<or> length vs \<le> length (callbacks p)"
  shows "\<exists>q. drive U p =
            Inr (q, deliveries (callbacks p) (default_cb p) (redisdb p) (map (to_sv (utf8 p)) vs),
                 length vs) \<and>
          buffer q = [] \<and> state q = RDBP_CLEAN \<and> mblk_reply q = None \<and>
          callbacks q = drop (length vs) (callbacks p)"
  using assms
proof (induction vs arbitrary: p)
  case Nil
  then show ?case by (simp add: drive_empty_buffer)
next
  case (Cons v vs)
  define rest where "rest = concat (map encode vs)"
  define p1 where
    "p1 = (after_reply p v rest)\<lparr>state := RDBP_CLEAN, callbacks := tl (callbacks p)\<rparr>"
  define d where "d = deliveries (callbacks p) (default_cb p) (redisdb p) [to_sv (utf8 p) v]"
  have cb: "callbacks p \<noteq> [] \<or> default_cb p \<noteq> None" using Cons.prems(5) by auto
  have v: "valid U (utf8 p) v" using Cons.prems(1) by simp
  have b: "buffer p = encode v @ rest" using Cons.prems(4) by (simp add: rest_def)
  have step: "rdb_parser__parse_reply U p = Inr (1, p1, d)"
    unfolding p1_def d_def using v Cons.prems(2,3) b cb by (rule parse_top_deliver)
  have D: "drive U p = then_run d 1 (drive U p1)"
    by (subst drive_unfold) (simp only: step sum.case prod.case, simp)
  have f: "utf8 p1 = utf8 p" "redisdb p1 = redisdb p" "callbacks p1 = tl (callbacks p)"
    "default_cb p1 = default_cb p" "buffer p1 = rest" "mblk_reply p1 = mblk_reply p"
    "state p1 = RDBP_CLEAN"
    by (simp_all add: p1_def after_reply_fields)
  have "\<exists>q. drive U p1 =
            Inr (q, deliveries (callbacks p1) (default_cb p1) (redisdb p1)
                      (map (to_sv (utf8 p1)) vs), length vs) \<and>
          buffer q = [] \<and> state q = RDBP_CLEAN \<and> mblk_reply q = None \<and>
          callbacks q = drop (length vs) (callbacks p1)"
  proof (rule Cons.IH)
    show "\<forall>v\<in>set vs. valid U (utf8 p1) v" using Cons.prems(1) by (simp add: f)
    show "state p1 = RDBP_CLEAN" by (rule f)
    show "mblk_reply p1 = None" using Cons.prems(3) by (simp add: f)
    show "buffer p1 = concat (map encode vs)" by (simp add: f rest_def)
    show "default_cb p1 \<noteq> None \<or> length vs \<le> length (callbacks p1)"
      using Cons.prems(5) by (auto simp: f)
  qed
  then obtain q where q: "drive U p1 =
            Inr (q, deliveries (tl (callbacks p)) (default_cb p) (redisdb p)
                      (map (to_sv (utf8 p)) vs), length vs)"
    and r: "buffer q = []" "state q = RDBP_CLEAN" "mblk_reply q = None"
      "callbacks q = drop (length vs) (tl (callbacks p))"
    unfolding f by blast
  have "drive U p =
      Inr (q, deliveries (callbacks p) (default_cb p) (redisdb p) (map (to_sv (utf8 p)) (v # vs)),
           length (v # vs))"
    using deliveries_Cons [OF cb, of "redisdb p" "to_sv (utf8 p) v" "map (to_sv (utf8 p)) vs"]
    by (simp add: D q then_run_def d_def)
  moreover have "callbacks q = drop (length (v # vs)) (callbacks p)"
    using r(4) by (simp add: drop_Suc)
  ultimately show ?case using r(1-3) by blast
qed


subsection \<open>Suspension inside a reply\<close>

text \<open>
  A clean parser that holds a proper prefix \<open>b\<close> of a valid reply returns 0 without a call,
  and what it does next, with \<open>d\<close> appended, is what it does on \<open>b @ d\<close> in one call.
\<close>

lemma mid_frame_resume:
  assumes "state p = RDBP_CLEAN" "mblk_reply p = None" "buffer p = []" "valid U (utf8 p) v"
    "callbacks p \<noteq> [] \<or> default_cb p \<noteq> None" "encode v = b @ c" "c \<noteq> []"
  shows "\<exists>p'. rdb_parser__parse_reply U (append_bytes p b) = Inr (0, p', []) \<and>
          (\<forall>d. rdb_parser__parse_reply U (append_bytes p' d) =
                rdb_parser__parse_reply U (append_bytes p (b @ d)))"
proof -
  let ?pb = "append_bytes p b"
  let ?pc = "append_bytes ?pb c"
  let ?q = "(after_reply ?pc v [])\<lparr>state := RDBP_CLEAN, callbacks := tl (callbacks ?pc)\<rparr>"
  let ?cs = "deliveries (callbacks ?pc) (default_cb ?pc) (redisdb ?pc) [to_sv (utf8 ?pc) v]"
  have whole: "rdb_parser__parse_reply U ?pc = Inr (1, ?q, ?cs)"
    using assms by (intro parse_top_deliver) (simp_all add: append_bytes_def)
  have bq: "buffer ?q = []" by (simp add: after_reply_fields)
  from parse_reply_append [of U ?pb] show ?thesis
  proof
    assume "\<forall>c. rdb_parser__parse_reply U (append_bytes ?pb c) =
               add_bytes_res c (rdb_parser__parse_reply U ?pb)"
    then have st: "rdb_parser__parse_reply U ?pc = add_bytes_res c (rdb_parser__parse_reply U ?pb)"
      by (rule spec)
    show ?thesis
    proof (cases "rdb_parser__parse_reply U ?pb")
      case (Inl e)
      with st whole show ?thesis by (simp add: add_bytes_res_def)
    next
      case (Inr x)
      obtain r p' cs' where x: "x = (r, p', cs')" by (cases x)
      from st whole Inr x have "?q = append_bytes p' c" by (simp add: add_bytes_res_def)
      then have "buffer ?q = buffer p' @ c" by (simp only: append_bytes_simps)
      with bq assms(7) show ?thesis by simp
    qed
  next
    assume "\<exists>p'. rdb_parser__parse_reply U ?pb = Inr (0, p', []) \<and>
         (\<forall>c. rdb_parser__parse_reply U (append_bytes ?pb c) =
               rdb_parser__parse_reply U (append_bytes p' c))"
    then obtain p' where p': "rdb_parser__parse_reply U ?pb = Inr (0, p', [])"
      and all: "\<And>d. rdb_parser__parse_reply U (append_bytes ?pb d) =
               rdb_parser__parse_reply U (append_bytes p' d)"
      by blast
    have "rdb_parser__parse_reply U (append_bytes p' d) =
                rdb_parser__parse_reply U (append_bytes p (b @ d))" for d
      using all [of d] by (simp only: append_bytes_append)
    with p' show ?thesis by blast
  qed
qed

section \<open>Feeding a stream in chunks\<close>

text \<open>
  C1. Let \<open>vs\<close> be replies that are valid for the parser \<open>p\<close>, a clean parser with an empty
  buffer and a callback for each of them, and let the chunks be any partition of the bytes
  of \<open>vs\<close>. Appending the chunks one at a time, with \<^verbatim>\<open>rdb_parser__parse_reply\<close> called
  after each until it returns 0, does what appending the whole stream at once does: both
  deliver the values of \<open>vs\<close> in order, one call each, and leave a clean parser with an
  empty buffer. Inside a reply, at any proper prefix \<open>b\<close> of the bytes of a valid reply, the
  parser returns 0 without a call, at a parser \<open>p'\<close> from which the next call, whatever
  bytes \<open>d\<close> have arrived, does what one call on \<open>b @ d\<close> does.
\<close>

theorem chunked_feeding:
  assumes "\<forall>v\<in>set vs. valid U (utf8 p) v"
    and "state p = RDBP_CLEAN" "mblk_reply p = None" "buffer p = []"
    and "default_cb p \<noteq> None \<or> length vs \<le> length (callbacks p)"
    and "concat chunks = concat (map encode vs)"
  shows "feed_chunks U p chunks = drive U (append_bytes p (concat (map encode vs))) \<and>
    (\<exists>q. feed_chunks U p chunks =
            Inr (q, deliveries (callbacks p) (default_cb p) (redisdb p) (map (to_sv (utf8 p)) vs),
                 length vs) \<and>
          buffer q = [] \<and> state q = RDBP_CLEAN \<and> mblk_reply q = None) \<and>
    (valid U (utf8 p) v \<and> (callbacks p \<noteq> [] \<or> default_cb p \<noteq> None) \<and>
       encode v = b @ c \<and> c \<noteq> [] \<longrightarrow>
     (\<exists>p'. rdb_parser__parse_reply U (append_bytes p b) = Inr (0, p', []) \<and>
          (\<forall>d. rdb_parser__parse_reply U (append_bytes p' d) =
                rdb_parser__parse_reply U (append_bytes p (b @ d)))))"
proof -
  let ?w = "append_bytes p (concat (map encode vs))"
  let ?T = "deliveries (callbacks p) (default_cb p) (redisdb p) (map (to_sv (utf8 p)) vs)"
  have "\<exists>q. drive U ?w =
            Inr (q, deliveries (callbacks ?w) (default_cb ?w) (redisdb ?w)
                      (map (to_sv (utf8 ?w)) vs), length vs) \<and>
          buffer q = [] \<and> state q = RDBP_CLEAN \<and> mblk_reply q = None \<and>
          callbacks q = drop (length vs) (callbacks ?w)"
    using assms(1-5) by (intro drive_stream) (simp_all add: append_bytes_def)
  then obtain q where whole: "drive U ?w = Inr (q, ?T, length vs)"
    and q: "buffer q = []" "state q = RDBP_CLEAN" "mblk_reply q = None"
    by (auto simp: append_bytes_def)
  have "drive U (append_bytes p (concat chunks)) = Inr (q, ?T, length vs)"
    using whole by (simp only: assms(6))
  with assms(4) have chunked: "feed_chunks U p chunks = Inr (q, ?T, length vs)"
    using q(1) by (rule feed_chunks_whole)
  have resume: "\<exists>p'. rdb_parser__parse_reply U (append_bytes p b) = Inr (0, p', []) \<and>
          (\<forall>d. rdb_parser__parse_reply U (append_bytes p' d) =
                rdb_parser__parse_reply U (append_bytes p (b @ d)))"
    if "valid U (utf8 p) v" "callbacks p \<noteq> [] \<or> default_cb p \<noteq> None"
      "encode v = b @ c" "c \<noteq> []"
    using assms(2-4) that by (rule mid_frame_resume)
  have one: "feed_chunks U p chunks = drive U ?w" by (simp only: chunked whole)
  have two: "\<exists>q. feed_chunks U p chunks = Inr (q, ?T, length vs) \<and>
          buffer q = [] \<and> state q = RDBP_CLEAN \<and> mblk_reply q = None"
    using chunked q by blast
  have three: "valid U (utf8 p) v \<and> (callbacks p \<noteq> [] \<or> default_cb p \<noteq> None) \<and>
       encode v = b @ c \<and> c \<noteq> [] \<longrightarrow>
     (\<exists>p'. rdb_parser__parse_reply U (append_bytes p b) = Inr (0, p', []) \<and>
          (\<forall>d. rdb_parser__parse_reply U (append_bytes p' d) =
                rdb_parser__parse_reply U (append_bytes p (b @ d))))"
    using resume by blast
  from one two three show ?thesis by (intro conjI)
qed


theorem chunked_feeding_witness:
  "feed_chunks (\<lambda>s. True) ((rdb_parser__init None 0 0 0 0)\<lparr>default_cb := Some 9\<rparr>)
     [''+'', ''A'' @ [CR], LF # '':7'', CRLF] =
     Inr ((rdb_parser__init None 0 0 0 0)\<lparr>default_cb := Some 9\<rparr>,
          [(9, None, PV ''A'' False), (9, None, IV 7)], 2) \<and>
   (\<exists>p'. rdb_parser__parse_reply (\<lambda>s. True)
            (append_bytes ((rdb_parser__init None 0 0 0 0)\<lparr>default_cb := Some 9\<rparr>)
               (''+A'' @ [CR])) = Inr (0, p', []) \<and>
         (\<forall>d. rdb_parser__parse_reply (\<lambda>s. True) (append_bytes p' d) =
               rdb_parser__parse_reply (\<lambda>s. True)
                 (append_bytes ((rdb_parser__init None 0 0 0 0)\<lparr>default_cb := Some 9\<rparr>)
                    ((''+A'' @ [CR]) @ d))))"
proof -
  let ?T = "\<lambda>s::bytes. True"
  let ?P = "(rdb_parser__init None 0 0 0 0)\<lparr>default_cb := Some 9\<rparr>"
  let ?vs = "[RString ''A'', RInteger 7]"
  let ?chunks = "[''+'', ''A'' @ [CR], LF # '':7'', CRLF]"
  have e: "concat (map encode ?vs) = ''+A'' @ CRLF @ '':7'' @ CRLF" by code_simp
  have h1: "\<forall>v\<in>set ?vs. valid ?T (utf8 ?P) v" by (simp add: LONG_MIN_def LONG_MAX_def)
  have h2: "state ?P = RDBP_CLEAN" "mblk_reply ?P = None" "buffer ?P = []"
    by (simp_all add: rdb_parser__init_def)
  have h3: "default_cb ?P \<noteq> None \<or> length ?vs \<le> length (callbacks ?P)" by simp
  have h4: "concat ?chunks = concat (map encode ?vs)" by (simp only: e) simp
  have h5: "valid ?T (utf8 ?P) (RString ''A'') \<and>
      (callbacks ?P \<noteq> [] \<or> default_cb ?P \<noteq> None) \<and>
      encode (RString ''A'') = (''+A'' @ [CR]) @ [LF] \<and> [LF] \<noteq> []"
    by simp
  have run: "drive ?T (append_bytes ?P (''+A'' @ CRLF @ '':7'' @ CRLF)) =
      Inr (?P, [(9, None, PV ''A'' False), (9, None, IV 7)], 2)"
    by (simp add: drive.simps run_simps append_bytes_def)
  from chunked_feeding [of ?vs ?T ?P ?chunks "RString ''A''" "''+A'' @ [CR]" "[LF]",
      OF h1 h2 h3 h4] h5 run
  show ?thesis by (simp only: e) blast
qed

section \<open>The state between two calls\<close>

text \<open>
  Modelled from the spec: what a client does with a parser is Perl code of the client,
  which is not under src/. "The buffer is appended externally (the driver writes incoming
  socket bytes into it). Callbacks are pushed externally in request order. The parser is
  driven by repeated calls to \<^verbatim>\<open>parse_reply\<close>." An event is one of these, or a change of
  the default callback, or a call of \<^verbatim>\<open>rdb_parser__propagate_reply\<close>. Beside the parser
  runs a counter of the bytes that \<^verbatim>\<open>rdb_parser__parse_reply\<close> has taken off the buffer
  for a reply that is not delivered yet: the parser holds a partial frame when the
  counter is not 0. A call that returns 1 sets it to 0, a call that returns 0 adds the
  bytes it has taken.
\<close>

datatype event = Append bytes | Push cb | Set_default "cb option" | Propagate sv | Parse

fun apply_event ::
  "(bytes \<Rightarrow> bool) \<Rightarrow> rdb_parser \<times> nat \<Rightarrow> event \<Rightarrow> error + (rdb_parser \<times> nat)" where
  "apply_event U (p, n) (Append chunk) = Inr (append_bytes p chunk, n)"
| "apply_event U (p, n) (Push c) = Inr (p\<lparr>callbacks := callbacks p @ [c]\<rparr>, n)"
| "apply_event U (p, n) (Set_default d) = Inr (p\<lparr>default_cb := d\<rparr>, n)"
| "apply_event U (p, n) (Propagate v) = Inr (fst (rdb_parser__propagate_reply p v), n)"
| "apply_event U (p, n) Parse =
     (case rdb_parser__parse_reply U p of
        Inl e \<Rightarrow> Inl e
      | Inr (r, p', cs) \<Rightarrow>
          Inr (p', if r \<noteq> 0 then 0 else n + (length (buffer p) - length (buffer p'))))"

fun run_events ::
  "(bytes \<Rightarrow> bool) \<Rightarrow> rdb_parser \<times> nat \<Rightarrow> event list \<Rightarrow> error + (rdb_parser \<times> nat)" where
  "run_events U s [] = Inr s"
| "run_events U s (e # es) =
     (case apply_event U s e of Inl x \<Rightarrow> Inl x | Inr s' \<Rightarrow> run_events U s' es)"

definition between_calls :: "rdb_parser \<times> nat \<Rightarrow> bool" where
  "between_calls s = (wf_parser (fst s) \<and> (state (fst s) = RDBP_CLEAN \<longleftrightarrow> snd s = 0))"

lemma wf_parser_callbacks: "wf_parser (p\<lparr>callbacks := c\<rparr>) = wf_parser p"
  by (simp add: wf_parser_def frame_ok_def no_frame_def)

lemma wf_parser_default_cb: "wf_parser (p\<lparr>default_cb := d\<rparr>) = wf_parser p"
  by (simp add: wf_parser_def frame_ok_def no_frame_def)

lemma parse_reply_clean_suspended:
  assumes "rdb_parser__parse_reply U p = Inr (0, p', cs)" "wf_parser p" "state p = RDBP_CLEAN"
  shows "state p' = RDBP_CLEAN \<longleftrightarrow> length (buffer p) - length (buffer p') = 0"
proof (cases "buffer p = []")
  case True
  with assms(1) show ?thesis using assms(3) by (simp add: rdb_parser__parse_reply_def)
next
  case False
  with assms obtain p1 where t: "clean_tag p = Inr p1" and
    l: "parse_loop U p1 = Inr (0, p', cs)"
    by (auto simp: rdb_parser__parse_reply_def split: sum.splits)
  from clean_tag_wf [OF t assms(2,3)] have w: "wf_parser p1" "state p1 \<noteq> RDBP_CLEAN"
    by simp_all
  from parse_loop_wf [OF l w] have "state p' \<noteq> RDBP_CLEAN" by simp
  moreover from parse_loop_shorter [OF l] clean_tag_buffer [OF t] False
  have "length (buffer p') < length (buffer p)" by (cases "buffer p") auto
  ultimately show ?thesis by simp
qed

lemma apply_event_between:
  assumes "between_calls s" "apply_event U s e = Inr s'"
  shows "between_calls s'"
proof -
  obtain p n where s: "s = (p, n)" by (cases s)
  from assms(1) s have w: "wf_parser p" and c: "state p = RDBP_CLEAN \<longleftrightarrow> n = 0"
    by (simp_all add: between_calls_def)
  show ?thesis
  proof (cases e)
    case (Append chunk)
    with assms(2) s w c show ?thesis by (auto simp: between_calls_def wf_append)
  next
    case (Push cb)
    with assms(2) s w c show ?thesis by (auto simp: between_calls_def wf_parser_callbacks)
  next
    case (Set_default d)
    with assms(2) s w c show ?thesis by (auto simp: between_calls_def wf_parser_default_cb)
  next
    case (Propagate v)
    with assms(2) s w c show ?thesis
      by (auto simp: between_calls_def propagate_all wf_parser_callbacks wf_parser_default_cb)
  next
    case Parse
    with assms(2) s obtain r p' cs where pr: "rdb_parser__parse_reply U p = Inr (r, p', cs)"
      and s': "s' = (p', if r \<noteq> 0 then 0 else n + (length (buffer p) - length (buffer p')))"
      by (auto split: sum.splits)
    note pw = parse_reply_wf [OF pr w]
    show ?thesis
    proof (cases "r = 0")
      case False
      with pw s' show ?thesis by (simp add: between_calls_def)
    next
      case True
      show ?thesis
      proof (cases "state p = RDBP_CLEAN")
        case cl: True
        from pr True have "rdb_parser__parse_reply U p = Inr (0, p', cs)" by simp
        from parse_reply_clean_suspended [OF this w cl] pw c cl True s'
        show ?thesis by (simp add: between_calls_def)
      next
        case ncl: False
        with c have n: "n \<noteq> 0" by simp
        from pw True ncl have "state p' \<noteq> RDBP_CLEAN" by auto
        with pw n True s' show ?thesis by (simp add: between_calls_def)
      qed
    qed
  qed
qed

lemma run_events_between:
  "between_calls s \<Longrightarrow> run_events U s es = Inr s' \<Longrightarrow> between_calls s'"
proof (induction es arbitrary: s)
  case Nil
  then show ?case by simp
next
  case (Cons e es)
  from Cons.prems(2) obtain s1 where a: "apply_event U s e = Inr s1"
    and r: "run_events U s1 es = Inr s'"
    by (auto split: sum.splits)
  from apply_event_between [OF Cons.prems(1) a] r show ?case by (rule Cons.IH)
qed

lemma between_calls_init: "between_calls (rdb_parser__init client u lvl mlen blen, 0)"
  by (simp add: between_calls_def wf_init) (simp add: rdb_parser__init_def)


text \<open>
  C2, as amended. Between any two calls, after any events on a new parser, the state is
  \<open>RDBP_CLEAN\<close> exactly when no partial frame is held: no byte of a reply that is not
  delivered yet has been taken off the buffer; the current array is then NULL and the
  stack is empty. When \<^verbatim>\<open>rdb_parser__parse_reply\<close> returns 1 the state is \<open>RDBP_CLEAN\<close>,
  the current array is NULL, the stack is empty and \<open>mblk_level\<close> is 0 or 1. A valid reply
  that is buffered whole at a clean parser with a callback is delivered, and \<open>mblk_level\<close>
  is then 1 after an array with an item and 0 after every other reply: the level is not
  reset when the reply is delivered but when the next type tag is read, which sets it to
  0, or to 1 for the tag \<open>*\<close>.
\<close>

theorem delivered_state:
  "(run_events U (rdb_parser__init client u lvl mlen blen, 0) es = Inr (p, n) \<longrightarrow>
      (state p = RDBP_CLEAN \<longleftrightarrow> n = 0) \<and>
      (state p = RDBP_CLEAN \<longrightarrow> mblk_reply p = None \<and> mblk_store p = []) \<and>
      (rdb_parser__parse_reply U p = Inr (r, p', cs) \<and> r \<noteq> 0 \<longrightarrow>
         state p' = RDBP_CLEAN \<and> (mblk_level p' = 0 \<or> mblk_level p' = 1) \<and>
         mblk_reply p' = None \<and> mblk_store p' = [])) \<and>
   (valid U (utf8 q) v \<and> state q = RDBP_CLEAN \<and> mblk_reply q = None \<and>
    buffer q = encode v @ rest \<and> (callbacks q \<noteq> [] \<or> default_cb q \<noteq> None) \<longrightarrow>
      (\<exists>q' ds. rdb_parser__parse_reply U q = Inr (1, q', ds) \<and> state q' = RDBP_CLEAN \<and>
          mblk_level q' = level_after v \<and> mblk_reply q' = None)) \<and>
   (state q = RDBP_CLEAN \<and> clean_tag q = Inr q1 \<longrightarrow>
      mblk_level q1 = (if hd (buffer q) = CHR ''*'' then 1 else 0))"
proof (intro conjI impI)
  assume run: "run_events U (rdb_parser__init client u lvl mlen blen, 0) es = Inr (p, n)"
  from run_events_between [OF between_calls_init run]
  have w: "wf_parser p" and c: "state p = RDBP_CLEAN \<longleftrightarrow> n = 0"
    by (simp_all add: between_calls_def)
  from c show "state p = RDBP_CLEAN \<longleftrightarrow> n = 0" .
  {
    assume "state p = RDBP_CLEAN"
    with w show "mblk_reply p = None" "mblk_store p = []"
      by (simp_all add: wf_parser_def no_frame_def)
  }
  {
    assume "rdb_parser__parse_reply U p = Inr (r, p', cs) \<and> r \<noteq> 0"
    then have pr: "rdb_parser__parse_reply U p = Inr (r, p', cs)" and r: "r \<noteq> 0" by simp_all
    from parse_reply_wf [OF pr w] r
    show "state p' = RDBP_CLEAN" "mblk_level p' = 0 \<or> mblk_level p' = 1"
      "mblk_reply p' = None" "mblk_store p' = []"
      by (simp_all add: no_frame_def)
  }
next
  assume h: "valid U (utf8 q) v \<and> state q = RDBP_CLEAN \<and> mblk_reply q = None \<and>
    buffer q = encode v @ rest \<and> (callbacks q \<noteq> [] \<or> default_cb q \<noteq> None)"
  let ?q' = "(after_reply q v rest)\<lparr>state := RDBP_CLEAN, callbacks := tl (callbacks q)\<rparr>"
  have "rdb_parser__parse_reply U q =
      Inr (1, ?q', deliveries (callbacks q) (default_cb q) (redisdb q) [to_sv (utf8 q) v])"
    using h by (intro parse_top_deliver) simp_all
  moreover have "state ?q' = RDBP_CLEAN" by simp
  moreover have "mblk_level ?q' = level_after v" by (simp add: after_reply_def)
  moreover have "mblk_reply ?q' = None" using h by (simp add: after_reply_def)
  ultimately show "\<exists>q' ds. rdb_parser__parse_reply U q = Inr (1, q', ds) \<and>
      state q' = RDBP_CLEAN \<and> mblk_level q' = level_after v \<and> mblk_reply q' = None"
    by blast
next
  assume "state q = RDBP_CLEAN \<and> clean_tag q = Inr q1"
  then show "mblk_level q1 = (if hd (buffer q) = CHR ''*'' then 1 else 0)"
    by (auto simp: clean_tag_def Let_def split: if_splits)
qed


text \<open>
  The claim as it is written fails for a reply that is an array with an item: the reply
  is delivered, the state is \<open>RDBP_CLEAN\<close>, and \<open>mblk_level\<close> is 1.
\<close>

theorem delivered_array_level:
  "rdb_parser__parse_reply (\<lambda>s. True)
     ((rdb_parser__init None 0 0 0 0)\<lparr>callbacks := [1], buffer := ''*1'' @ CRLF @ '':5'' @ CRLF\<rparr>) =
   Inr (1, (rdb_parser__init None 0 0 0 0)\<lparr>callbacks := [], mblk_level := 1, mblk_len := 1\<rparr>,
        [(1, None, AVref [IV 5])]) \<and>
   state ((rdb_parser__init None 0 0 0 0)\<lparr>callbacks := [], mblk_level := 1, mblk_len := 1\<rparr>) =
     RDBP_CLEAN \<and>
   mblk_level ((rdb_parser__init None 0 0 0 0)\<lparr>callbacks := [], mblk_level := 1, mblk_len := 1\<rparr>)
     \<noteq> 0"
  by (simp add: run_simps)

text \<open>
  A line that is not finished: the parser has taken the tag, the state is
  \<open>RDBP_READ_LINE\<close>, and \<open>mblk_level\<close> is 0 with no array and an empty stack. So the
  partial frame of the invariant is not only a multi-bulk frame.
\<close>

lemma suspended_line:
  "run_events (\<lambda>s. True) (rdb_parser__init None 0 0 0 0, 0) [Append ''+O'', Parse] =
     Inr ((rdb_parser__init None 0 0 0 0)\<lparr>buffer := ''O'', state := RDBP_READ_LINE\<rparr>, 1)"
  by (simp add: run_simps append_bytes_def)

theorem delivered_state_witness:
  "state ((rdb_parser__init None 0 0 0 0)\<lparr>callbacks := [], mblk_level := 1, mblk_len := 1\<rparr>) =
     RDBP_CLEAN \<and>
   mblk_reply ((rdb_parser__init None 0 0 0 0)\<lparr>callbacks := [], mblk_level := 1, mblk_len := 1\<rparr>) =
     None \<and>
   mblk_store ((rdb_parser__init None 0 0 0 0)\<lparr>callbacks := [], mblk_level := 1, mblk_len := 1\<rparr>) =
     [] \<and>
   state ((rdb_parser__init None 0 0 0 0)\<lparr>buffer := ''O'', state := RDBP_READ_LINE\<rparr>) \<noteq>
     RDBP_CLEAN \<and>
   (\<exists>q' ds. rdb_parser__parse_reply (\<lambda>s. True)
        ((rdb_parser__init None 0 0 0 0)\<lparr>callbacks := [1],
           buffer := ''*1'' @ CRLF @ '':5'' @ CRLF\<rparr>) = Inr (1, q', ds) \<and>
      state q' = RDBP_CLEAN \<and> mblk_level q' = 1 \<and> mblk_reply q' = None) \<and>
   mblk_level
     ((rdb_parser__init None 0 1 0 0)\<lparr>buffer := [], state := RDBP_READ_LINE, mblk_level := 0\<rparr>) = 0"
proof -
  let ?T = "\<lambda>s::bytes. True"
  let ?i = "rdb_parser__init None 0 0 0 0"
  let ?p = "?i\<lparr>callbacks := [1], buffer := ''*1'' @ CRLF @ '':5'' @ CRLF\<rparr>"
  let ?p' = "?i\<lparr>callbacks := [], mblk_level := 1, mblk_len := 1\<rparr>"
  let ?s = "?i\<lparr>buffer := ''O'', state := RDBP_READ_LINE\<rparr>"
  let ?v = "RArray [RInteger 5]"
  have e: "encode ?v = ''*1'' @ CRLF @ '':5'' @ CRLF" by code_simp
  have run0: "run_events ?T (?i, 0) [Push 1, Append (''*1'' @ CRLF @ '':5'' @ CRLF)] = Inr (?p, 0)"
    by (simp add: append_bytes_def rdb_parser__init_def)
  have call: "rdb_parser__parse_reply ?T ?p = Inr (1, ?p', [(1, None, AVref [IV 5])])"
    by (simp add: run_simps)
  have run1: "run_events ?T (?i, 0) [Push 1, Append (''*1'' @ CRLF @ '':5'' @ CRLF), Parse] =
      Inr (?p', 0)"
    using call by (simp add: append_bytes_def rdb_parser__init_def)
  have run2: "run_events ?T (?i, 0) [Append ''+O'', Parse] = Inr (?s, 1)"
    by (simp add: run_simps append_bytes_def)
  have a: "state ?p' = RDBP_CLEAN \<and> mblk_reply ?p' = None \<and> mblk_store ?p' = []"
    using delivered_state [of ?T None 0 0 0 0
        "[Push 1, Append (''*1'' @ CRLF @ '':5'' @ CRLF), Parse]" ?p' 0, THEN conjunct1] run1
    by simp
  have b: "state ?p' = RDBP_CLEAN \<and> (mblk_level ?p' = 0 \<or> mblk_level ?p' = 1)"
    using delivered_state [of ?T None 0 0 0 0
        "[Push 1, Append (''*1'' @ CRLF @ '':5'' @ CRLF)]" ?p 0 1 ?p'
        "[(1, None, AVref [IV 5])]", THEN conjunct1] run0 call
    by simp
  have c: "state ?s \<noteq> RDBP_CLEAN"
    using delivered_state [of ?T None 0 0 0 0 "[Append ''+O'', Parse]" ?s 1, THEN conjunct1] run2
    by simp
  have v: "valid ?T (utf8 ?p) ?v \<and> state ?p = RDBP_CLEAN \<and> mblk_reply ?p = None \<and>
      buffer ?p = encode ?v @ [] \<and> (callbacks ?p \<noteq> [] \<or> default_cb ?p \<noteq> None)"
    by (simp only: e) (simp add: rdb_parser__init_def LONG_MIN_def LONG_MAX_def)
  have d: "\<exists>q' ds. rdb_parser__parse_reply ?T ?p = Inr (1, q', ds) \<and>
      state q' = RDBP_CLEAN \<and> mblk_level q' = 1 \<and> mblk_reply q' = None"
    using delivered_state [where U = ?T and q = ?p and v = ?v and rest = "[]",
        THEN conjunct2, THEN conjunct1] v
    by simp
  let ?q = "(rdb_parser__init None 0 1 0 0)\<lparr>buffer := ''+''\<rparr>"
  have t: "clean_tag ?q =
     Inr ((rdb_parser__init None 0 1 0 0)\<lparr>buffer := [], state := RDBP_READ_LINE, mblk_level := 0\<rparr>)"
    by (simp add: clean_tag_def rdb_parser__init_def)
  have f: "mblk_level
     ((rdb_parser__init None 0 1 0 0)\<lparr>buffer := [], state := RDBP_READ_LINE, mblk_level := 0\<rparr>) = 0"
    using delivered_state [where q = ?q and
        ?q1.0 = "(rdb_parser__init None 0 1 0 0)\<lparr>buffer := [], state := RDBP_READ_LINE, mblk_level := 0\<rparr>",
        THEN conjunct2, THEN conjunct2] t
    by (simp add: rdb_parser__init_def)
  from a b c d f show ?thesis by blast
qed

end
